theory Spec2Isabelle
  imports Main
begin

section \<open>Data model (main.cpp, lines 37-71)\<close>

text \<open>
  \<^verbatim>\<open>struct conditional\<close> is the whole group from the opening directive to its
  \<^verbatim>\<open>#endif\<close>; \<^verbatim>\<open>struct conditional_block\<close> is one branch of it. The two
  structs refer to each other, so they are one mutually recursive datatype. Both structs
  have fields named \<^verbatim>\<open>begin_line\<close> and \<^verbatim>\<open>end_line\<close>; the selectors of the
  block carry the prefix \<open>block_\<close>. Line numbers are C++ \<^verbatim>\<open>int\<close>; they are modelled
  as unbounded integers (the counter only grows by the number of lines read, and signed
  overflow is undefined in C++, so there is no wrap-around to write out).
\<close>

datatype conditional =
  Conditional (begin_line: int) (end_line: int) (blocks: "conditional_block list")
and conditional_block =
  Conditional_Block (block_begin_line: int) (block_end_line: int) (condition: string)
    (nested_conditionals: "conditional list")

section \<open>Output\<close>

text \<open>
  Everything the program prints is one of a few fixed formats. Each call of
  \<^verbatim>\<open>printf\<close> or \<^verbatim>\<open>std::wcout\<close> is one value of \<open>printed\<close>, carrying the values the
  format string is filled with.
\<close>

datatype error_message =
    Path_specified_more_than_once
  | Missing_path
  | Invalid_line_number string
  | Unrecognized_argument string
  | Must_specify_file_path
  | Must_specify_line_numbers
  | Failed_to_open_file string
  | Encountered_else_outside_of_a_conditional
  | Encountered_endif_with_no_matching_conditional
  | Reached_end_of_file_with_an_active_conditional_block

datatype printed =
    Usage
  | Error error_message
  | Requirements_for_line int
  | Requires bool int string
  | Blank

text \<open>
  \<^verbatim>\<open>std::string::c_str\<close> passed to the \<^verbatim>\<open>%s\<close> of \<^verbatim>\<open>printf\<close>: the text up to the
  first NUL character.
\<close>

definition c_str :: "string \<Rightarrow> string" where
  "c_str s = takeWhile (\<lambda>c. c \<noteq> CHR 0x00) s"

section \<open>The query: \<^verbatim>\<open>process_line\<close> (lines 75-103)\<close>

text \<open>
  The outer loop over \<^verbatim>\<open>conditionals\<close> is \<open>process_line\<close>, the inner loop over
  \<^verbatim>\<open>cond.blocks\<close> is \<open>process_blocks\<close>. Both \<^verbatim>\<open>break\<close> statements are the
  branches without a recursive call on the rest of the list.
\<close>

fun process_line :: "int \<Rightarrow> conditional list \<Rightarrow> printed list"
  and process_blocks :: "int \<Rightarrow> conditional_block list \<Rightarrow> printed list" where
  "process_line line [] = []"
| "process_line line (Conditional b e bs # conds) =
     (if b \<le> line \<and> e \<ge> line then process_blocks line bs
      else process_line line conds)"
| "process_blocks line [] = []"
| "process_blocks line (Conditional_Block b e c nested # bs) =
     (if b \<le> line \<and> e > line
      then Requires True b (c_str c) # process_line line nested
      else Requires False b (c_str c) # process_blocks line bs)"

section \<open>The line source (lines 174-198)\<close>

text \<open>
  \<^verbatim>\<open>std::ifstream\<close>: the characters not read yet, and whether \<^verbatim>\<open>good()\<close> holds
  (no state bit is set). \<^verbatim>\<open>std::getline\<close> on a stream that is not good leaves the
  string alone. On a good stream it clears the string and extracts characters up to the
  next newline, which it consumes and does not store; reaching the end of the file
  before a newline sets \<^verbatim>\<open>eofbit\<close> (and \<^verbatim>\<open>failbit\<close> when nothing was extracted),
  so the stream is no longer good.
\<close>

record istream =
  unread :: string
  good :: bool

definition getline :: "istream \<Rightarrow> string \<Rightarrow> string \<times> istream" where
  "getline stream str =
     (if \<not> good stream then (str, stream)
      else
        let l = takeWhile (\<lambda>c. c \<noteq> CHR 0x0A) (unread stream) in
        if length l < length (unread stream)
        then (l, stream\<lparr>unread := drop (Suc (length l)) (unread stream)\<rparr>)
        else (l, stream\<lparr>unread := [], good := False\<rparr>))"

definition stream_measure :: "istream \<Rightarrow> nat" where
  "stream_measure stream = length (unread stream) + (if good stream then 1 else 0)"

lemma getline_measure:
  "good stream \<Longrightarrow> getline stream str = (l, stream') \<Longrightarrow>
     stream_measure stream' < stream_measure stream"
  by (auto simp: getline_def stream_measure_def Let_def split: if_splits)

text \<open>The \<^verbatim>\<open>while\<close> loop of lines 191-198; the character \<open>0x5C\<close> is the backslash.\<close>

function merge_continued :: "istream \<Rightarrow> string \<Rightarrow> int \<Rightarrow> string \<times> int \<times> istream" where
  "merge_continued stream currentLine linesRead =
     (if good stream \<and> currentLine \<noteq> [] \<and> last currentLine = CHR 0x5C
      then
        (case getline stream [] of
           (next, stream') \<Rightarrow>
             merge_continued stream' (currentLine @ [CHR 0x0A] @ next) (linesRead + 1))
      else (currentLine, linesRead, stream))"
  by pat_completeness auto
termination
  by (relation "measure (\<lambda>(stream, currentLine, linesRead). stream_measure stream)")
     (auto dest: getline_measure [OF _ sym])

declare merge_continued.simps [simp del]

lemma merge_continued_measure:
  "merge_continued stream cur n = (cur', n', stream') \<Longrightarrow>
     stream_measure stream' \<le> stream_measure stream"
proof (induction stream cur n rule: merge_continued.induct)
  case (1 stream currentLine linesRead)
  show ?case
  proof (cases "good stream \<and> currentLine \<noteq> [] \<and> last currentLine = CHR 0x5C")
    case True
    obtain nxt s1 where g: "getline stream [] = (nxt, s1)"
      by (cases "getline stream []")
    from True g "1.prems" have
      "merge_continued s1 (currentLine @ [CHR 0x0A] @ nxt) (linesRead + 1) = (cur', n', stream')"
      by (subst (asm) merge_continued.simps) simp
    with "1.IH" [OF True g [symmetric]] have "stream_measure stream' \<le> stream_measure s1"
      by simp
    moreover from True g have "stream_measure s1 < stream_measure stream"
      by (auto dest: getline_measure)
    ultimately show ?thesis by simp
  next
    case False
    with "1.prems" show ?thesis
      by (subst (asm) merge_continued.simps) auto
  qed
qed

text \<open>
  Lines 187-198: one logical line, the number of physical lines read for it, and the
  stream after it. It is only called on a good stream (the loop condition).
\<close>

definition read_logical_line :: "istream \<Rightarrow> string \<times> int \<times> istream" where
  "read_logical_line stream =
     (case getline stream [] of (currentLine, stream') \<Rightarrow> merge_continued stream' currentLine 1)"

lemma read_logical_line_measure:
  "good stream \<Longrightarrow> read_logical_line stream = (cur, n, stream') \<Longrightarrow>
     stream_measure stream' < stream_measure stream"
  unfolding read_logical_line_def
  by (auto split: prod.splits dest!: getline_measure merge_continued_measure)

section \<open>Directive classification (lines 200-231)\<close>

definition whitespace :: string where
  "whitespace = [CHR '' '', CHR 0x09, CHR 0x0B]"

text \<open>
  \<^verbatim>\<open>std::string::find_first_not_of(chars, pos)\<close>: the lowest position from \<open>pos\<close> on
  whose character is not one of \<open>chars\<close>; \<open>None\<close> is \<^verbatim>\<open>npos\<close>.
\<close>

definition find_first_not_of :: "string \<Rightarrow> string \<Rightarrow> nat \<Rightarrow> nat option" where
  "find_first_not_of s chars pos = List.find (\<lambda>i. s ! i \<notin> set chars) [pos ..< length s]"

text \<open>
  \<^verbatim>\<open>std::isalpha\<close> in the "C" locale (the program never sets another): the 52 ASCII
  letters. For a character above \<open>0x7F\<close> the C++ passes a negative \<^verbatim>\<open>char\<close> where
  \<^verbatim>\<open>char\<close> is signed, which the C standard leaves undefined; the usual libraries answer
  that it is not a letter, and so does the model.
\<close>

definition isalpha :: "char \<Rightarrow> bool" where
  "isalpha c = (let n = (of_char c :: nat) in (65 \<le> n \<and> n \<le> 90) \<or> (97 \<le> n \<and> n \<le> 122))"

text \<open>The \<^verbatim>\<open>for\<close> loop of lines 222-229 that advances \<^verbatim>\<open>endPos\<close>.\<close>

function scan_alpha :: "string \<Rightarrow> nat \<Rightarrow> nat" where
  "scan_alpha currentLine endPos =
     (if endPos < length currentLine
      then (if \<not> isalpha (currentLine ! endPos) then endPos
            else scan_alpha currentLine (Suc endPos))
      else endPos)"
  by pat_completeness auto
termination
  by (relation "measure (\<lambda>(currentLine, endPos). length currentLine - endPos)") auto

declare scan_alpha.simps [simp del]

text \<open>
  Lines 200-231: the \<^verbatim>\<open>string_view directive\<close>, or \<open>None\<close> where the loop body ends
  early with \<^verbatim>\<open>continue\<close>.
\<close>

definition directive :: "string \<Rightarrow> string option" where
  "directive currentLine =
     (case find_first_not_of currentLine whitespace 0 of
        None \<Rightarrow> None
      | Some pos \<Rightarrow>
          if currentLine ! pos \<noteq> CHR ''#'' then None
          else
            (case find_first_not_of currentLine whitespace (pos + 1) of
               None \<Rightarrow> None
             | Some pos' \<Rightarrow>
                 let endPos = scan_alpha currentLine pos'
                 in Some (take (endPos - pos') (drop pos' currentLine))))"

section \<open>The tree builder (lines 181-294)\<close>

subsection \<open>Pointers into the forest\<close>

text \<open>
  \<^verbatim>\<open>stateStack\<close> holds \<^verbatim>\<open>conditional*\<close> pointers into the forest that
  \<^verbatim>\<open>conditionals\<close> owns. A pointer is modelled as the place it points to: the
  index \<open>i\<close> into \<^verbatim>\<open>conditionals\<close>, followed by one pair \<open>(j, k)\<close> for each level
  of nesting, meaning \<^verbatim>\<open>.blocks[j]->nested_conditionals[k]\<close>. Reading through a
  pointer is \<open>deref\<close> and writing through it is \<open>store\<close>; a pointer to a place that
  does not exist has no value (\<open>None\<close>), and the builder treats its use as
  undefined behaviour.
\<close>

type_synonym conditional_ptr = "nat \<times> (nat \<times> nat) list"

fun deref_in :: "conditional \<Rightarrow> (nat \<times> nat) list \<Rightarrow> conditional option" where
  "deref_in c [] = Some c"
| "deref_in c ((j, k) # path) =
     (if j < length (blocks c) \<and> k < length (nested_conditionals (blocks c ! j))
      then deref_in (nested_conditionals (blocks c ! j) ! k) path
      else None)"

fun store_in :: "conditional \<Rightarrow> (nat \<times> nat) list \<Rightarrow> conditional \<Rightarrow> conditional" where
  "store_in c [] v = v"
| "store_in c ((j, k) # path) v =
     (if j < length (blocks c) \<and> k < length (nested_conditionals (blocks c ! j))
      then
        let b = blocks c ! j;
            nested = (nested_conditionals b)[k := store_in (nested_conditionals b ! k) path v]
        in Conditional (begin_line c) (end_line c)
             ((blocks c)[j := Conditional_Block (block_begin_line b) (block_end_line b)
                                (condition b) nested])
      else c)"

definition deref :: "conditional list \<Rightarrow> conditional_ptr \<Rightarrow> conditional option" where
  "deref cs p = (if fst p < length cs then deref_in (cs ! fst p) (snd p) else None)"

definition store :: "conditional list \<Rightarrow> conditional_ptr \<Rightarrow> conditional \<Rightarrow> conditional list" where
  "store cs p v = (if fst p < length cs then cs[fst p := store_in (cs ! fst p) (snd p) v] else cs)"

subsection \<open>Builder state and the ways the build stops\<close>

record build_state =
  conditionals :: "conditional list"
  stateStack :: "conditional_ptr list"

text \<open>
  \<open>Fatal\<close> is a message on \<^verbatim>\<open>std::wcout\<close> followed by \<^verbatim>\<open>return -1\<close>. The other
  two are the ways the C++ could go wrong: a failed \<^verbatim>\<open>assert\<close>, and the use of
  \<^verbatim>\<open>back()\<close> on an empty vector or of a pointer to nothing.
\<close>

datatype crash = Assertion_failed | Undefined_behaviour

datatype failure = Fatal error_message | Crash crash

subsection \<open>The three directive branches\<close>

text \<open>
  Lines 235-247. A value-initialised \<^verbatim>\<open>conditional\<close> (\<^verbatim>\<open>emplace_back()\<close>) has both
  line numbers zero and no blocks.
\<close>

definition push_conditional :: "build_state \<Rightarrow> failure + build_state" where
  "push_conditional st =
     (if stateStack st = [] then
        let cs = conditionals st @ [Conditional 0 0 []]
        in Inr \<lparr>conditionals = cs, stateStack = [(length cs - 1, [])]\<rparr>
      else
        let p = last (stateStack st) in
        (case deref (conditionals st) p of
           None \<Rightarrow> Inl (Crash Undefined_behaviour)
         | Some parent \<Rightarrow>
             if blocks parent = [] then Inl (Crash Undefined_behaviour)
             else
               let j = length (blocks parent) - 1;
                   currentBlock = blocks parent ! j;
                   nested = nested_conditionals currentBlock @ [Conditional 0 0 []];
                   parent' = Conditional (begin_line parent) (end_line parent)
                            ((blocks parent)[j := Conditional_Block (block_begin_line currentBlock)
                                (block_end_line currentBlock) (condition currentBlock) nested])
               in Inr \<lparr>conditionals = store (conditionals st) p parent',
                       stateStack = stateStack st @ [(fst p, snd p @ [(j, length nested - 1)])]\<rparr>))"

text \<open>Lines 232-255: \<^verbatim>\<open>if\<close>, \<^verbatim>\<open>ifdef\<close>, \<^verbatim>\<open>ifndef\<close>.\<close>

definition on_if :: "build_state \<Rightarrow> int \<Rightarrow> string \<Rightarrow> failure + build_state" where
  "on_if st currentLineNumber currentLine =
     (case push_conditional st of
        Inl f \<Rightarrow> Inl f
      | Inr st1 \<Rightarrow>
          let p = last (stateStack st1) in
          (case deref (conditionals st1) p of
             None \<Rightarrow> Inl (Crash Undefined_behaviour)
           | Some cond \<Rightarrow>
               if blocks cond \<noteq> [] then Inl (Crash Assertion_failed)
               else Inr (st1\<lparr>conditionals := store (conditionals st1) p
                          (Conditional currentLineNumber (end_line cond)
                             [Conditional_Block currentLineNumber 0 currentLine []])\<rparr>)))"

text \<open>Lines 256-271: \<^verbatim>\<open>else\<close>, \<^verbatim>\<open>elif\<close>.\<close>

definition on_else :: "build_state \<Rightarrow> int \<Rightarrow> string \<Rightarrow> failure + build_state" where
  "on_else st currentLineNumber currentLine =
     (if stateStack st = [] then Inl (Fatal Encountered_else_outside_of_a_conditional)
      else
        let p = last (stateStack st) in
        (case deref (conditionals st) p of
           None \<Rightarrow> Inl (Crash Undefined_behaviour)
         | Some cond \<Rightarrow>
             if blocks cond = [] then Inl (Crash Assertion_failed)
             else
               let j = length (blocks cond) - 1;
                   b = blocks cond ! j;
                   closed = (blocks cond)[j := Conditional_Block (block_begin_line b)
                              currentLineNumber (condition b) (nested_conditionals b)]
               in Inr (st\<lparr>conditionals := store (conditionals st) p
                         (Conditional (begin_line cond) (end_line cond)
                            (closed @ [Conditional_Block currentLineNumber 0 currentLine []]))\<rparr>)))"

text \<open>Lines 272-286: \<^verbatim>\<open>endif\<close>.\<close>

definition on_endif :: "build_state \<Rightarrow> int \<Rightarrow> failure + build_state" where
  "on_endif st currentLineNumber =
     (if stateStack st = [] then Inl (Fatal Encountered_endif_with_no_matching_conditional)
      else
        let p = last (stateStack st) in
        (case deref (conditionals st) p of
           None \<Rightarrow> Inl (Crash Undefined_behaviour)
         | Some cond \<Rightarrow>
             if blocks cond = [] then Inl (Crash Assertion_failed)
             else
               let j = length (blocks cond) - 1;
                   b = blocks cond ! j
               in Inr \<lparr>conditionals = store (conditionals st) p
                         (Conditional (begin_line cond) currentLineNumber
                            ((blocks cond)[j := Conditional_Block (block_begin_line b)
                               currentLineNumber (condition b) (nested_conditionals b)])),
                       stateStack = butlast (stateStack st)\<rparr>))"

subsection \<open>One iteration of the loop body (lines 200-287)\<close>

definition process_logical_line :: "build_state \<Rightarrow> int \<Rightarrow> string \<Rightarrow> failure + build_state" where
  "process_logical_line st currentLineNumber currentLine =
     (case directive currentLine of
        None \<Rightarrow> Inr st
      | Some d \<Rightarrow>
          if d = ''if'' \<or> d = ''ifdef'' \<or> d = ''ifndef'' then on_if st currentLineNumber currentLine
          else if d = ''else'' \<or> d = ''elif'' then on_else st currentLineNumber currentLine
          else if d = ''endif'' then on_endif st currentLineNumber
          else Inr st)"

subsection \<open>The loop (lines 185-288) and the check after it (lines 290-294)\<close>

function build_loop :: "istream \<Rightarrow> int \<Rightarrow> build_state \<Rightarrow> failure + build_state" where
  "build_loop stream currentLineNumber st =
     (if good stream then
        (case read_logical_line stream of
           (currentLine, linesRead, stream') \<Rightarrow>
             (case process_logical_line st currentLineNumber currentLine of
                Inl f \<Rightarrow> Inl f
              | Inr st' \<Rightarrow> build_loop stream' (currentLineNumber + linesRead) st'))
      else Inr st)"
  by pat_completeness auto
termination
  by (relation "measure (\<lambda>(stream, currentLineNumber, st). stream_measure stream)")
     (auto dest: read_logical_line_measure [OF _ sym])

declare build_loop.simps [simp del]

text \<open>
  The whole build of an opened file: the forest, or the way the build stopped. The
  stream of a file that was opened starts good, at line 1, with nothing built.
\<close>

definition build :: "string \<Rightarrow> failure + conditional list" where
  "build content =
     (case build_loop \<lparr>unread = content, good = True\<rparr> 1 \<lparr>conditionals = [], stateStack = []\<rparr> of
        Inl f \<Rightarrow> Inl f
      | Inr st \<Rightarrow>
          if stateStack st \<noteq> [] then Inl (Fatal Reached_end_of_file_with_an_active_conditional_block)
          else Inr (conditionals st))"

section \<open>The driver: \<^verbatim>\<open>main\<close> (lines 105-302)\<close>

subsection \<open>Argument parsing (lines 110-171)\<close>

text \<open>
  \<^verbatim>\<open>**begin\<close>, the first character of a C string: the terminating NUL when the string
  is empty.
\<close>

definition first_char :: "string \<Rightarrow> char" where
  "first_char arg = (case arg of [] \<Rightarrow> CHR 0x00 | c # _ \<Rightarrow> c)"

text \<open>
  \<^verbatim>\<open>std::atoi\<close> belongs to the C library, not to this program: it is a parameter
  of the driver. An early \<^verbatim>\<open>return\<close> from the argument loop is \<open>Inl\<close> of what
  was printed and the exit status.

  The inner loop of lines 134-143 over the values after \<^verbatim>\<open>--lines\<close>: it stops at the
  end of the arguments or at the first argument that starts with \<^verbatim>\<open>-\<close>, which is
  left for the outer loop.
\<close>

fun parse_lines :: "(string \<Rightarrow> int) \<Rightarrow> int list \<Rightarrow> string list \<Rightarrow> string + int list \<times> string list" where
  "parse_lines atoi lines [] = Inr (lines, [])"
| "parse_lines atoi lines (arg # args) =
     (if first_char arg \<noteq> CHR ''-'' then
        (let line = atoi arg in
         if line \<le> 0 then Inl arg
         else parse_lines atoi (lines @ [line]) args)
      else Inr (lines, arg # args))"

lemma parse_lines_length:
  "parse_lines atoi lines args = Inr (lines', args') \<Longrightarrow> length args' \<le> length args"
proof (induction args arbitrary: lines)
  case Nil
  then show ?case by simp
next
  case (Cons arg args)
  show ?case
  proof (cases "first_char arg \<noteq> CHR ''-'' \<and> \<not> atoi arg \<le> 0")
    case True
    with Cons.prems have "parse_lines atoi (lines @ [atoi arg]) args = Inr (lines', args')"
      by (simp add: Let_def)
    from Cons.IH [OF this] show ?thesis by simp
  next
    case False
    with Cons.prems show ?thesis
      by (auto simp: Let_def split: if_splits)
  qed
qed

function parse_args ::
  "(string \<Rightarrow> int) \<Rightarrow> string \<Rightarrow> int list \<Rightarrow> string list \<Rightarrow> printed list \<times> int + string \<times> int list" where
  "parse_args atoi filePath lines [] = Inr (filePath, lines)"
| "parse_args atoi filePath lines (arg # args) =
     (if arg = ''--file'' then
        (if filePath \<noteq> [] then Inl ([Error Path_specified_more_than_once, Usage], 1)
         else
           (case args of
              [] \<Rightarrow> Inl ([Error Missing_path, Usage], 1)
            | path # args' \<Rightarrow> parse_args atoi path lines args'))
      else if arg = ''--lines'' then
        (case parse_lines atoi lines args of
           Inl bad \<Rightarrow> Inl ([Error (Invalid_line_number bad), Usage], 1)
         | Inr (lines', args') \<Rightarrow> parse_args atoi filePath lines' args')
      else if arg = ''--help'' then Inl ([Usage], 0)
      else Inl ([Error (Unrecognized_argument arg), Usage], 1))"
  by pat_completeness auto
termination
  by (relation "measure (\<lambda>(atoi, filePath, lines, args). length args)")
     (auto simp: less_Suc_eq_le intro: parse_lines_length)

subsection \<open>The whole program\<close>

text \<open>
  What a run of the program does that can be observed: the exit status, what it printed,
  and the paths it tried to open. The file system is the function \<open>fs\<close> from a path to
  the content of the file, \<open>None\<close> where opening fails. A run that fails an assertion
  or has undefined behaviour has no such result; it is \<open>Inl\<close> of the crash.
\<close>

record result =
  exit_code :: int
  printed_lines :: "printed list"
  opened :: "string list"

definition main ::
  "(string \<Rightarrow> int) \<Rightarrow> (string \<Rightarrow> string option) \<Rightarrow> string list \<Rightarrow> crash + result" where
  "main atoi fs args =
     (case parse_args atoi [] [] args of
        Inl (out, status) \<Rightarrow> Inr \<lparr>exit_code = status, printed_lines = out, opened = []\<rparr>
      | Inr (filePath, lines) \<Rightarrow>
          if filePath = [] then
            Inr \<lparr>exit_code = 1, printed_lines = [Error Must_specify_file_path, Usage], opened = []\<rparr>
          else if lines = [] then
            Inr \<lparr>exit_code = 1, printed_lines = [Error Must_specify_line_numbers, Usage], opened = []\<rparr>
          else
            (case fs filePath of
               None \<Rightarrow>
                 Inr \<lparr>exit_code = 1, printed_lines = [Error (Failed_to_open_file filePath)],
                      opened = [filePath]\<rparr>
             | Some content \<Rightarrow>
                 (case build content of
                    Inl (Crash c) \<Rightarrow> Inl c
                  | Inl (Fatal msg) \<Rightarrow>
                      Inr \<lparr>exit_code = - 1, printed_lines = [Error msg], opened = [filePath]\<rparr>
                  | Inr forest \<Rightarrow>
                      Inr \<lparr>exit_code = 0,
                           printed_lines =
                             concat (map (\<lambda>line. Requirements_for_line line # process_line line forest @ [Blank]) lines),
                           opened = [filePath]\<rparr>)))"

subsection \<open>A model of \<^verbatim>\<open>atoi\<close> for concrete runs\<close>

text \<open>
  The theorems about \<open>main\<close> hold for every function in the place of \<^verbatim>\<open>atoi\<close>. Where
  a concrete run is evaluated, \<open>c_atoi\<close> stands in for it: leading white space, an
  optional sign, then decimal digits up to the first other character (the value is not
  reduced to the range of \<^verbatim>\<open>int\<close>; beyond that range the C function is undefined).
\<close>

definition isspace :: "char \<Rightarrow> bool" where
  "isspace c = (let n = (of_char c :: nat) in n = 32 \<or> (9 \<le> n \<and> n \<le> 13))"

fun digits_value :: "int \<Rightarrow> string \<Rightarrow> int" where
  "digits_value acc [] = acc"
| "digits_value acc (c # cs) =
     (let n = (of_char c :: nat) in
      if 48 \<le> n \<and> n \<le> 57 then digits_value (10 * acc + (int n - 48)) cs else acc)"

definition c_atoi :: "string \<Rightarrow> int" where
  "c_atoi s =
     (case dropWhile isspace s of
        [] \<Rightarrow> 0
      | c # cs \<Rightarrow>
          if c = CHR ''-'' then - digits_value 0 cs
          else if c = CHR ''+'' then digits_value 0 cs
          else digits_value 0 (c # cs))"

section \<open>Example inputs\<close>

text \<open>Example 1 of the specification: five lines, here without and with a final newline.\<close>

definition example_1 :: string where
  "example_1 = ''#if A'' @ [CHR 0x0A] @ ''x;'' @ [CHR 0x0A] @ ''#else'' @ [CHR 0x0A]
     @ ''y;'' @ [CHR 0x0A] @ ''#endif''"

definition example_1_forest :: "conditional list" where
  "example_1_forest =
     [Conditional 1 5 [Conditional_Block 1 3 ''#if A'' [], Conditional_Block 3 5 ''#else'' []]]"

text \<open>Example 2 of the specification: one group nested in another.\<close>

definition example_2 :: string where
  "example_2 = ''#if A'' @ [CHR 0x0A] @ ''#if B'' @ [CHR 0x0A] @ ''#endif'' @ [CHR 0x0A]
     @ ''#endif'' @ [CHR 0x0A]"

definition example_2_inner :: conditional where
  "example_2_inner = Conditional 2 3 [Conditional_Block 2 3 ''#if B'' []]"

definition example_2_forest :: "conditional list" where
  "example_2_forest = [Conditional 1 4 [Conditional_Block 1 4 ''#if A'' [example_2_inner]]]"

text \<open>A group whose branches are out of the usual order: \<^verbatim>\<open>else\<close>, \<^verbatim>\<open>elif\<close>, \<^verbatim>\<open>else\<close>.\<close>

definition example_3 :: string where
  "example_3 = ''#if A'' @ [CHR 0x0A] @ ''#else'' @ [CHR 0x0A] @ ''#elif B'' @ [CHR 0x0A]
     @ ''#else'' @ [CHR 0x0A] @ ''#endif''"

text \<open>A directive that is continued on a second physical line.\<close>

definition example_4 :: string where
  "example_4 = ''#if A '' @ [CHR 0x5C, CHR 0x0A] @ '' B'' @ [CHR 0x0A] @ ''x;'' @ [CHR 0x0A]
     @ ''#else'' @ [CHR 0x0A] @ ''y;'' @ [CHR 0x0A] @ ''#endif'' @ [CHR 0x0A]"

section \<open>Well-formed forests\<close>

text \<open>
  The invariants of a built forest, as the specification states them. \<open>chain from bs to\<close>:
  the blocks \<open>bs\<close> are contiguous, the first begins at \<open>from\<close>, each ends where the next
  begins, the last ends at \<open>to\<close>, and the conditionals nested in each block form a closed
  forest strictly inside the block's range. \<open>closed_forest lo hi cs\<close>: the conditionals
  \<open>cs\<close> are in source order, pairwise disjoint and strictly between \<open>lo\<close> and \<open>hi\<close>, and
  each has a non-empty chain of blocks from its \<^verbatim>\<open>begin_line\<close> to its \<^verbatim>\<open>end_line\<close>.
\<close>

fun closed_forest :: "int \<Rightarrow> int \<Rightarrow> conditional list \<Rightarrow> bool"
  and chain :: "int \<Rightarrow> conditional_block list \<Rightarrow> int \<Rightarrow> bool" where
  "closed_forest lo hi [] = (lo < hi)"
| "closed_forest lo hi (Conditional b e bs # conds) =
     (lo < b \<and> bs \<noteq> [] \<and> chain b bs e \<and> closed_forest e hi conds)"
| "chain from [] to = (from = to)"
| "chain from (Conditional_Block b e c nested # bs) to =
     (b = from \<and> closed_forest b e nested \<and> chain e bs to)"

definition closed_conditional :: "conditional \<Rightarrow> bool" where
  "closed_conditional c = (blocks c \<noteq> [] \<and> chain (begin_line c) (blocks c) (end_line c))"

text \<open>
  Every conditional of a forest, at any depth of nesting.
\<close>

fun all_conditionals :: "conditional list \<Rightarrow> conditional list"
  and blocks_conditionals :: "conditional_block list \<Rightarrow> conditional list" where
  "all_conditionals [] = []"
| "all_conditionals (Conditional b e bs # conds) =
     Conditional b e bs # blocks_conditionals bs @ all_conditionals conds"
| "blocks_conditionals [] = []"
| "blocks_conditionals (Conditional_Block b e c nested # bs) =
     all_conditionals nested @ blocks_conditionals bs"

text \<open>
  The FALSE entries the query prints for a sequence of blocks, and the line number an
  entry carries.
\<close>

definition false_entries :: "conditional_block list \<Rightarrow> printed list" where
  "false_entries bs = map (\<lambda>b. Requires False (block_begin_line b) (c_str (condition b))) bs"

fun entry_line :: "printed \<Rightarrow> int" where
  "entry_line (Requires flag n text) = n"
| "entry_line _ = 0"

section \<open>The classification of a line, as the specification words it\<close>

text \<open>
  Skip leading blanks (space, tab, vertical tab). A line with nothing else, or whose first
  other character is not \<^verbatim>\<open>#\<close>, is not a directive. Otherwise skip the blanks after
  the \<^verbatim>\<open>#\<close>; if nothing follows, the line is not a directive either; else the keyword
  is the longest run of letters that starts there (it may be empty).
\<close>

definition is_blank :: "char \<Rightarrow> bool" where
  "is_blank c = (c = CHR '' '' \<or> c = CHR 0x09 \<or> c = CHR 0x0B)"

definition keyword_of :: "string \<Rightarrow> string option" where
  "keyword_of line =
     (case dropWhile is_blank line of
        [] \<Rightarrow> None
      | c # rest \<Rightarrow>
          if c \<noteq> CHR ''#'' then None
          else
            (case dropWhile is_blank rest of
               [] \<Rightarrow> None
             | k # ks \<Rightarrow> Some (takeWhile isalpha (k # ks))))"

section \<open>Physical and logical lines\<close>

text \<open>
  The specification's description of the line source. The physical lines of a text are
  the pieces between its newline characters (a text that ends with a newline has an empty
  last piece). A physical line that is not empty and ends with a backslash is continued by
  the next one, when there is a next one. A logical line is a maximal run of continued
  lines joined by newlines; it carries the number of its first physical line, and the
  next logical line is numbered after the last physical line of the run.
\<close>

primrec physical_lines :: "string \<Rightarrow> string list" where
  "physical_lines [] = [[]]"
| "physical_lines (c # cs) =
     (if c = CHR 0x0A then [] # physical_lines cs
      else (case physical_lines cs of [] \<Rightarrow> [[c]] | l # ls \<Rightarrow> (c # l) # ls))"

fun join_lines :: "string list \<Rightarrow> string" where
  "join_lines [] = []"
| "join_lines [l] = l"
| "join_lines (l # l' # ls) = l @ CHR 0x0A # join_lines (l' # ls)"

definition continued :: "string \<Rightarrow> bool" where
  "continued l = (l \<noteq> [] \<and> last l = CHR 0x5C)"

fun take_logical_line :: "string \<Rightarrow> string list \<Rightarrow> string list \<times> string list" where
  "take_logical_line l [] = ([l], [])"
| "take_logical_line l (l' # ls) =
     (if continued l
      then (case take_logical_line l' ls of (g, rest) \<Rightarrow> (l # g, rest))
      else ([l], l' # ls))"

lemma take_logical_line_length:
  "take_logical_line l ls = (g, rest) \<Longrightarrow> length rest \<le> length ls"
  by (induction l ls arbitrary: g rest rule: take_logical_line.induct)
     (auto split: if_splits prod.splits)

function logical_lines :: "int \<Rightarrow> string list \<Rightarrow> (int \<times> string) list" where
  "logical_lines n [] = []"
| "logical_lines n (l # ls) =
     (case take_logical_line l ls of
        (g, rest) \<Rightarrow> (n, join_lines g) # logical_lines (n + int (length g)) rest)"
  by pat_completeness auto
termination
  by (relation "measure (\<lambda>(n, ls). length ls)")
     (auto simp: less_Suc_eq_le intro: take_logical_line_length [OF sym])

text \<open>The loop body applied to a list of numbered logical lines, stopping at a failure.\<close>

fun run_lines :: "(int \<times> string) list \<Rightarrow> build_state \<Rightarrow> failure + build_state" where
  "run_lines [] st = Inr st"
| "run_lines ((n, text) # rest) st =
     (case process_logical_line st n text of
        Inl f \<Rightarrow> Inl f
      | Inr st' \<Rightarrow> run_lines rest st')"

text \<open>
  The stream that still has the physical lines \<open>ls\<close> to deliver: no line left means the
  end of the file was hit.
\<close>

definition stream_of :: "string list \<Rightarrow> istream" where
  "stream_of ls = (if ls = [] then \<lparr>unread = [], good = False\<rparr>
                   else \<lparr>unread = join_lines ls, good = True\<rparr>)"

text \<open>
  The number of lines of a file: its physical lines, not counting the empty piece after a
  final newline.
\<close>

definition real_lines :: "string list \<Rightarrow> int" where
  "real_lines ls = int (length ls) - (if ls \<noteq> [] \<and> last ls = [] then 1 else 0)"

definition line_count :: "string \<Rightarrow> int" where
  "line_count content = real_lines (physical_lines content)"

section \<open>The builder's invariant\<close>

text \<open>
  While the builder runs, the conditionals that are still open lie on one path: the last
  top-level conditional, the last conditional nested in its last block, and so on.
  \<open>open_at d c\<close> is the conditional \<open>d\<close> levels below \<open>c\<close> on that path,
  \<open>open_path d c\<close> the pointer path to it, \<open>has_path d c\<close> says that it exists, and
  \<open>update_open d f c\<close> replaces it by its image under \<open>f\<close>. \<open>open_stack d cs\<close> is the
  stack of pointers to the first \<open>d\<close> conditionals on the path.
\<close>

primrec has_path :: "nat \<Rightarrow> conditional \<Rightarrow> bool" where
  "has_path 0 c = True"
| "has_path (Suc d) c =
     (blocks c \<noteq> [] \<and> nested_conditionals (last (blocks c)) \<noteq> [] \<and>
      has_path d (last (nested_conditionals (last (blocks c)))))"

primrec open_path :: "nat \<Rightarrow> conditional \<Rightarrow> (nat \<times> nat) list" where
  "open_path 0 c = []"
| "open_path (Suc d) c =
     (length (blocks c) - 1, length (nested_conditionals (last (blocks c))) - 1)
       # open_path d (last (nested_conditionals (last (blocks c))))"

primrec open_at :: "nat \<Rightarrow> conditional \<Rightarrow> conditional" where
  "open_at 0 c = c"
| "open_at (Suc d) c = open_at d (last (nested_conditionals (last (blocks c))))"

definition with_last_nested :: "(conditional \<Rightarrow> conditional) \<Rightarrow> conditional \<Rightarrow> conditional" where
  "with_last_nested f c =
     (let b = last (blocks c); l = nested_conditionals b
      in Conditional (begin_line c) (end_line c)
           (butlast (blocks c) @
              [Conditional_Block (block_begin_line b) (block_end_line b) (condition b)
                 (butlast l @ [f (last l)])]))"

primrec update_open :: "nat \<Rightarrow> (conditional \<Rightarrow> conditional) \<Rightarrow> conditional \<Rightarrow> conditional" where
  "update_open 0 f c = f c"
| "update_open (Suc d) f c = with_last_nested (update_open d f) c"

definition open_stack :: "nat \<Rightarrow> conditional list \<Rightarrow> conditional_ptr list" where
  "open_stack d cs = map (\<lambda>k. (length cs - 1, open_path k (last cs))) [0 ..< d]"

text \<open>
  What the three directive branches do to the conditional they work on: \<open>else_update\<close>
  closes the last block at line \<open>n\<close> and appends a new one, \<open>endif_update\<close> closes the
  last block and the conditional, \<open>nest_update\<close> appends a conditional to the last block;
  \<open>opened_at\<close> is a conditional as the \<^verbatim>\<open>if\<close> branch leaves it.
\<close>

definition else_update :: "int \<Rightarrow> string \<Rightarrow> conditional \<Rightarrow> conditional" where
  "else_update n t c =
     (let b = last (blocks c)
      in Conditional (begin_line c) (end_line c)
           (butlast (blocks c) @
              [Conditional_Block (block_begin_line b) n (condition b) (nested_conditionals b),
               Conditional_Block n 0 t []]))"

definition endif_update :: "int \<Rightarrow> conditional \<Rightarrow> conditional" where
  "endif_update n c =
     (let b = last (blocks c)
      in Conditional (begin_line c) n
           (butlast (blocks c) @
              [Conditional_Block (block_begin_line b) n (condition b) (nested_conditionals b)]))"

definition nest_update :: "conditional \<Rightarrow> conditional \<Rightarrow> conditional" where
  "nest_update x c =
     (let b = last (blocks c)
      in Conditional (begin_line c) (end_line c)
           (butlast (blocks c) @
              [Conditional_Block (block_begin_line b) (block_end_line b) (condition b)
                 (nested_conditionals b @ [x])]))"

definition opened_at :: "int \<Rightarrow> string \<Rightarrow> conditional" where
  "opened_at n t = Conditional n 0 [Conditional_Block n 0 t []]"

text \<open>
  \<open>open_conditional k n c\<close>: \<open>c\<close> is open with \<open>k\<close> open conditionals below it, all of
  its closed parts are well formed, and every line number recorded in it is below \<open>n\<close>.
  \<open>build_inv n st\<close> is the invariant of the loop: the stack holds exactly the pointers
  to the open conditionals, and the forest is closed up to them.
\<close>

primrec open_conditional :: "nat \<Rightarrow> int \<Rightarrow> conditional \<Rightarrow> bool" where
  "open_conditional 0 n c =
     (blocks c \<noteq> [] \<and>
      chain (begin_line c) (butlast (blocks c)) (block_begin_line (last (blocks c))) \<and>
      closed_forest (block_begin_line (last (blocks c))) n (nested_conditionals (last (blocks c))))"
| "open_conditional (Suc k) n c =
     (blocks c \<noteq> [] \<and>
      chain (begin_line c) (butlast (blocks c)) (block_begin_line (last (blocks c))) \<and>
      nested_conditionals (last (blocks c)) \<noteq> [] \<and>
      closed_forest (block_begin_line (last (blocks c)))
        (begin_line (last (nested_conditionals (last (blocks c)))))
        (butlast (nested_conditionals (last (blocks c)))) \<and>
      open_conditional k n (last (nested_conditionals (last (blocks c)))))"

definition build_inv :: "int \<Rightarrow> build_state \<Rightarrow> bool" where
  "build_inv n st =
     (stateStack st = open_stack (length (stateStack st)) (conditionals st) \<and>
      (case length (stateStack st) of
         0 \<Rightarrow> closed_forest 0 n (conditionals st)
       | Suc k \<Rightarrow>
           conditionals st \<noteq> [] \<and>
           closed_forest 0 (begin_line (last (conditionals st))) (butlast (conditionals st)) \<and>
           open_conditional k n (last (conditionals st))))"

section \<open>Lemmas\<close>

subsection \<open>Closed forests\<close>

lemma closed_forest_less: "closed_forest lo hi cs \<Longrightarrow> lo < hi"
  and chain_le: "chain b bs e \<Longrightarrow> b \<le> e"
proof (induction lo hi cs and b bs e rule: closed_forest_chain.induct)
  case (2 lo hi b e bs conds)
  then show ?case by (cases bs) auto
qed auto

lemma chain_less:
  assumes "bs \<noteq> []" and "chain b bs e"
  shows "b < e"
proof (cases bs)
  case Nil
  with assms show ?thesis by simp
next
  case (Cons x xs)
  with assms have "closed_forest b (block_end_line x) (nested_conditionals x)"
    and "chain (block_end_line x) xs e"
    by (cases x; simp)+
  from closed_forest_less [OF this(1)] chain_le [OF this(2)] show ?thesis by simp
qed

lemma closed_forest_mono: "closed_forest lo hi cs \<Longrightarrow> hi \<le> hi' \<Longrightarrow> lo' \<le> lo \<Longrightarrow> closed_forest lo' hi' cs"
proof (induction cs arbitrary: lo lo')
  case Nil
  then show ?case by simp
next
  case (Cons c cs)
  then show ?case by (cases c) auto
qed

lemma closed_forest_append:
  "closed_forest lo hi (cs @ [c]) \<longleftrightarrow>
     closed_forest lo (begin_line c) cs \<and> closed_conditional c \<and> end_line c < hi"
proof (induction cs arbitrary: lo)
  case Nil
  then show ?case by (cases c) (auto simp: closed_conditional_def)
next
  case (Cons a cs)
  then show ?case by (cases a) auto
qed

lemma chain_append:
  "chain b (bs @ [x]) e \<longleftrightarrow>
     chain b bs (block_begin_line x) \<and> closed_forest (block_begin_line x) (block_end_line x) (nested_conditionals x) \<and> block_end_line x = e"
proof (induction bs arbitrary: b)
  case Nil
  then show ?case by (cases x) auto
next
  case (Cons a bs)
  then show ?case by (cases a) auto
qed

subsection \<open>Pointers to the open conditionals\<close>

lemma list_update_last: "xs \<noteq> [] \<Longrightarrow> xs[length xs - Suc 0 := v] = butlast xs @ [v]"
  by (induction xs rule: rev_induct) auto

lemma nth_last: "xs \<noteq> [] \<Longrightarrow> xs ! (length xs - Suc 0) = last xs"
  by (simp add: last_conv_nth)

lemma list_update_last_1: "xs \<noteq> [] \<Longrightarrow> xs[length xs - 1 := v] = butlast xs @ [v]"
  by (simp add: list_update_last)

lemma nth_last_1: "xs \<noteq> [] \<Longrightarrow> xs ! (length xs - 1) = last xs"
  by (simp add: nth_last)

lemma with_last_nested_simps:
  assumes "blocks c \<noteq> []"
  shows "blocks (with_last_nested f c) \<noteq> []"
    and "length (blocks (with_last_nested f c)) = length (blocks c)"
    and "begin_line (with_last_nested f c) = begin_line c"
    and "end_line (with_last_nested f c) = end_line c"
    and "butlast (blocks (with_last_nested f c)) = butlast (blocks c)"
    and "block_begin_line (last (blocks (with_last_nested f c))) = block_begin_line (last (blocks c))"
    and "block_end_line (last (blocks (with_last_nested f c))) = block_end_line (last (blocks c))"
    and "condition (last (blocks (with_last_nested f c))) = condition (last (blocks c))"
    and "nested_conditionals (last (blocks (with_last_nested f c))) =
           butlast (nested_conditionals (last (blocks c))) @ [f (last (nested_conditionals (last (blocks c))))]"
  using assms by (simp_all add: with_last_nested_def Let_def)

lemma deref_in_open_path: "has_path d c \<Longrightarrow> deref_in c (open_path d c) = Some (open_at d c)"
  by (induction d arbitrary: c) (auto simp: nth_last)

lemma store_in_open_path:
  "has_path d c \<Longrightarrow> store_in c (open_path d c) v = update_open d (\<lambda>_. v) c"
  by (induction d arbitrary: c)
     (auto simp: nth_last list_update_last with_last_nested_def Let_def)

lemma open_path_update_open:
  "has_path d c \<Longrightarrow> j \<le> d \<Longrightarrow> open_path j (update_open d f c) = open_path j c"
proof (induction d arbitrary: c j)
  case 0
  then show ?case by simp
next
  case (Suc d)
  show ?case
  proof (cases j)
    case 0
    then show ?thesis by simp
  next
    case (Suc j')
    with Suc.prems Suc.IH [of "last (nested_conditionals (last (blocks c)))" j']
    show ?thesis by (simp add: with_last_nested_simps)
  qed
qed

lemma has_path_update_open: "has_path d c \<Longrightarrow> has_path d (update_open d f c)"
  by (induction d arbitrary: c) (simp_all add: with_last_nested_simps)

lemma open_at_update_open: "has_path d c \<Longrightarrow> open_at d (update_open d f c) = f (open_at d c)"
  by (induction d arbitrary: c) (simp_all add: with_last_nested_simps)

lemma open_path_Suc:
  "open_path (Suc d) c =
     open_path d c @ [(length (blocks (open_at d c)) - 1,
                       length (nested_conditionals (last (blocks (open_at d c)))) - 1)]"
  by (induction d arbitrary: c) simp_all

lemma has_path_Suc:
  "has_path (Suc d) c \<longleftrightarrow>
     has_path d c \<and> blocks (open_at d c) \<noteq> [] \<and>
     nested_conditionals (last (blocks (open_at d c))) \<noteq> []"
  by (induction d arbitrary: c) auto

lemma update_open_const: "update_open d (\<lambda>_. f (open_at d c)) c = update_open d f c"
  by (induction d arbitrary: c) (simp_all add: with_last_nested_def Let_def)

lemma update_open_Suc: "update_open (Suc d) g c = update_open d (with_last_nested g) c"
  by (induction d arbitrary: c) (simp_all add: with_last_nested_def Let_def)

lemma update_open_twice:
  "has_path d c \<Longrightarrow> update_open d g (update_open d f c) = update_open d (\<lambda>x. g (f x)) c"
proof (induction d arbitrary: c)
  case 0
  then show ?case by simp
next
  case (Suc d)
  then show ?case
    by (simp add: with_last_nested_def Let_def)
qed

subsection \<open>What each directive branch does to the forest\<close>

lemma open_stack_Suc:
  "open_stack (Suc d) cs = open_stack d cs @ [(length cs - 1, open_path d (last cs))]"
  by (simp add: open_stack_def)

lemma length_open_stack [simp]: "length (open_stack d cs) = d"
  by (simp add: open_stack_def)

lemma deref_open:
  "cs \<noteq> [] \<Longrightarrow> has_path k (last cs) \<Longrightarrow>
     deref cs (length cs - 1, open_path k (last cs)) = Some (open_at k (last cs))"
  by (simp add: deref_def nth_last deref_in_open_path)

lemma store_open:
  "cs \<noteq> [] \<Longrightarrow> has_path k (last cs) \<Longrightarrow>
     store cs (length cs - 1, open_path k (last cs)) v =
       butlast cs @ [update_open k (\<lambda>_. v) (last cs)]"
  by (simp add: store_def nth_last store_in_open_path list_update_last)

lemma open_stack_update:
  assumes "cs \<noteq> []" and "has_path k (last cs)" and "d \<le> Suc k"
  shows "open_stack d (butlast cs @ [update_open k f (last cs)]) = open_stack d cs"
  using assms by (auto simp: open_stack_def open_path_update_open)

lemma on_else_effect:
  assumes "stateStack st = open_stack (Suc k) (conditionals st)"
    and "conditionals st \<noteq> []" and "has_path k (last (conditionals st))"
    and "blocks (open_at k (last (conditionals st))) \<noteq> []"
  shows "on_else st n t =
     Inr (st\<lparr>conditionals := butlast (conditionals st) @
            [update_open k (else_update n t) (last (conditionals st))]\<rparr>)"
proof -
  let ?cs = "conditionals st" and ?top = "open_at k (last (conditionals st))"
  have p: "last (stateStack st) = (length ?cs - 1, open_path k (last ?cs))"
    by (simp add: assms(1) open_stack_Suc)
  have "update_open k (\<lambda>_. else_update n t ?top) (last ?cs) = update_open k (else_update n t) (last ?cs)"
    by (rule update_open_const)
  then show ?thesis
    using assms
    by (simp add: on_else_def p Let_def deref_open store_open list_update_last_1 nth_last_1
        else_update_def open_stack_Suc del: One_nat_def)
qed

lemma on_endif_effect:
  assumes "stateStack st = open_stack (Suc k) (conditionals st)"
    and "conditionals st \<noteq> []" and "has_path k (last (conditionals st))"
    and "blocks (open_at k (last (conditionals st))) \<noteq> []"
  shows "on_endif st n =
     Inr \<lparr>conditionals = butlast (conditionals st) @
            [update_open k (endif_update n) (last (conditionals st))],
          stateStack = open_stack k (conditionals st)\<rparr>"
proof -
  let ?cs = "conditionals st" and ?top = "open_at k (last (conditionals st))"
  have p: "last (stateStack st) = (length ?cs - 1, open_path k (last ?cs))"
    by (simp add: assms(1) open_stack_Suc)
  have "update_open k (\<lambda>_. endif_update n ?top) (last ?cs) = update_open k (endif_update n) (last ?cs)"
    by (rule update_open_const)
  then show ?thesis
    using assms
    by (simp add: on_endif_def p Let_def deref_open store_open list_update_last_1 nth_last_1
        endif_update_def open_stack_Suc del: One_nat_def)
qed

lemma open_at_Suc:
  "open_at (Suc d) c = last (nested_conditionals (last (blocks (open_at d c))))"
  by (induction d arbitrary: c) simp_all

lemma nest_update_simps:
  assumes "blocks c \<noteq> []"
  shows "blocks (nest_update x c) \<noteq> []"
    and "length (blocks (nest_update x c)) = length (blocks c)"
    and "nested_conditionals (last (blocks (nest_update x c))) =
           nested_conditionals (last (blocks c)) @ [x]"
  using assms by (simp_all add: nest_update_def Let_def)

lemma with_last_nested_nest_update:
  "with_last_nested (\<lambda>_. y) (nest_update x c) = nest_update y c"
  by (simp add: with_last_nested_def nest_update_def Let_def)

lemma push_conditional_top_level:
  assumes "stateStack st = []"
  shows "push_conditional st =
     Inr \<lparr>conditionals = conditionals st @ [Conditional 0 0 []],
          stateStack = open_stack 1 (conditionals st @ [Conditional 0 0 []])\<rparr>"
  using assms by (simp add: push_conditional_def Let_def open_stack_def)

lemma push_conditional_nested:
  assumes "stateStack st = open_stack (Suc k) (conditionals st)"
    and "conditionals st \<noteq> []" and "has_path k (last (conditionals st))"
    and "blocks (open_at k (last (conditionals st))) \<noteq> []"
  defines "cs1 \<equiv> butlast (conditionals st) @
            [update_open k (nest_update (Conditional 0 0 [])) (last (conditionals st))]"
  shows "push_conditional st = Inr \<lparr>conditionals = cs1, stateStack = open_stack (Suc (Suc k)) cs1\<rparr>"
proof -
  let ?cs = "conditionals st" and ?top = "open_at k (last (conditionals st))"
  let ?c1 = "update_open k (nest_update (Conditional 0 0 [])) (last ?cs)"
  have p: "last (stateStack st) = (length ?cs - 1, open_path k (last ?cs))"
    by (simp add: assms(1) open_stack_Suc)
  have u: "update_open k (\<lambda>_. nest_update (Conditional 0 0 []) ?top) (last ?cs) = ?c1"
    by (rule update_open_const)
  have top1: "open_at k ?c1 = nest_update (Conditional 0 0 []) ?top"
    using assms(3) by (rule open_at_update_open)
  have path1: "open_path (Suc k) ?c1 =
      open_path k (last ?cs) @
        [(length (blocks ?top) - 1, length (nested_conditionals (last (blocks ?top)) @ [Conditional 0 0 []]) - 1)]"
    unfolding open_path_Suc top1
    using assms(3,4) by (simp add: open_path_update_open nest_update_simps)
  have st1: "open_stack (Suc (Suc k)) (butlast ?cs @ [?c1]) =
      open_stack (Suc k) ?cs @ [(length ?cs - 1, open_path (Suc k) ?c1)]"
    unfolding open_stack_Suc [of "Suc k"]
    using assms(2,3) open_stack_update [of ?cs k "Suc k"] by simp
  have "push_conditional st =
      Inr \<lparr>conditionals = butlast ?cs @ [update_open k (\<lambda>_. nest_update (Conditional 0 0 []) ?top) (last ?cs)],
           stateStack = stateStack st @ [(length ?cs - 1, open_path (Suc k) ?c1)]\<rparr>"
    using assms(1-4) unfolding path1
    by (simp add: push_conditional_def p Let_def deref_open store_open list_update_last_1 nth_last_1
        nest_update_def open_stack_Suc del: One_nat_def)
  then show ?thesis
    unfolding cs1_def by (simp only: u assms(1) st1)
qed

lemma on_if_top_level:
  assumes "stateStack st = []"
  shows "on_if st n t =
     Inr \<lparr>conditionals = conditionals st @ [opened_at n t],
          stateStack = open_stack 1 (conditionals st @ [opened_at n t])\<rparr>"
  using assms
  by (simp add: on_if_def push_conditional_top_level open_stack_def deref_def store_def
      opened_at_def Let_def)

lemma on_if_nested:
  fixes n :: int and t :: string
  assumes "stateStack st = open_stack (Suc k) (conditionals st)"
    and "conditionals st \<noteq> []" and "has_path k (last (conditionals st))"
    and "blocks (open_at k (last (conditionals st))) \<noteq> []"
  defines "cs' \<equiv> butlast (conditionals st) @
            [update_open k (nest_update (opened_at n t)) (last (conditionals st))]"
  shows "on_if st n t = Inr \<lparr>conditionals = cs', stateStack = open_stack (Suc (Suc k)) cs'\<rparr>"
proof -
  let ?cs = "conditionals st" and ?top = "open_at k (last (conditionals st))"
  let ?c1 = "update_open k (nest_update (Conditional 0 0 [])) (last ?cs)"
  let ?cs1 = "butlast ?cs @ [?c1]"
  have push: "push_conditional st = Inr \<lparr>conditionals = ?cs1, stateStack = open_stack (Suc (Suc k)) ?cs1\<rparr>"
    using assms(1-4) by (rule push_conditional_nested)
  have top1: "open_at k ?c1 = nest_update (Conditional 0 0 []) ?top"
    using assms(3) by (rule open_at_update_open)
  have hp1: "has_path (Suc k) ?c1"
    unfolding has_path_Suc top1
    using assms(3,4) by (simp add: has_path_update_open nest_update_simps)
  have new: "open_at (Suc k) ?c1 = Conditional 0 0 []"
    unfolding open_at_Suc top1 using assms(4) by (simp add: nest_update_simps)
  have upd: "update_open (Suc k) (\<lambda>_. opened_at n t) ?c1 =
      update_open k (nest_update (opened_at n t)) (last ?cs)"
    unfolding update_open_Suc
    using assms(3) by (simp add: update_open_twice with_last_nested_nest_update)
  define cs1 where "cs1 = ?cs1"
  define S where "S = open_stack (Suc (Suc k)) cs1"
  define P where "P = (length cs1 - 1, open_path (Suc k) (last cs1))"
  define R where "R = butlast cs1 @ [update_open (Suc k) (\<lambda>_. opened_at n t) (last cs1)]"
  have hp: "has_path (Suc k) (last cs1)" and ne: "cs1 \<noteq> []"
    using hp1 by (simp_all add: cs1_def)
  have stack: "open_stack (Suc (Suc k)) R = S"
    unfolding R_def S_def using ne hp by (intro open_stack_update) simp_all
  have p: "last S = P"
    unfolding S_def P_def open_stack_Suc [of "Suc k"] by simp
  have d: "deref cs1 P = Some (Conditional 0 0 [])"
    unfolding P_def using deref_open [OF ne hp] new by (simp add: cs1_def)
  have s: "store cs1 P (Conditional n 0 [Conditional_Block n 0 t []]) = R"
    unfolding P_def R_def opened_at_def using ne hp by (rule store_open)
  have "push_conditional st = Inr \<lparr>conditionals = cs1, stateStack = S\<rparr>"
    using push by (simp only: cs1_def S_def)
  then have "on_if st n t = Inr \<lparr>conditionals = R, stateStack = S\<rparr>"
    by (simp add: on_if_def Let_def p d s)
  moreover have "R = cs'"
    unfolding R_def cs'_def cs1_def using upd by simp
  ultimately show ?thesis
    using stack by simp
qed

subsection \<open>The branches preserve the invariant\<close>

lemma open_conditional_has_path: "open_conditional k n c \<Longrightarrow> has_path k c"
  by (induction k arbitrary: c) simp_all

lemma open_conditional_blocks: "open_conditional k n c \<Longrightarrow> blocks (open_at k c) \<noteq> []"
  by (induction k arbitrary: c) simp_all

lemma open_conditional_mono: "open_conditional k n c \<Longrightarrow> n \<le> n' \<Longrightarrow> open_conditional k n' c"
  by (induction k arbitrary: c) (auto intro: closed_forest_mono)

lemma begin_line_update_open:
  "(\<And>x. begin_line (f x) = begin_line x) \<Longrightarrow> begin_line (update_open k f c) = begin_line c"
  by (cases k) (simp_all add: with_last_nested_def Let_def)

lemma begin_line_updates [simp]:
  "begin_line (else_update n t c) = begin_line c"
  "begin_line (endif_update n c) = begin_line c"
  "begin_line (nest_update x c) = begin_line c"
  by (simp_all add: else_update_def endif_update_def nest_update_def Let_def)

lemma open_conditional_else:
  "open_conditional k n c \<Longrightarrow> open_conditional k (n + 1) (update_open k (else_update n t) c)"
proof (induction k arbitrary: c)
  case 0
  then show ?case
    by (simp add: else_update_def Let_def chain_append butlast_append)
next
  case (Suc k)
  then show ?case
    by (simp add: with_last_nested_simps begin_line_update_open)
qed

lemma endif_update_closed:
  "open_conditional 0 n c \<Longrightarrow>
     closed_conditional (endif_update n c) \<and> end_line (endif_update n c) = n"
  by (simp add: endif_update_def Let_def closed_conditional_def chain_append)

lemma open_conditional_endif:
  "open_conditional (Suc k) n c \<Longrightarrow>
     open_conditional k (n + 1) (update_open (Suc k) (endif_update n) c)"
proof (induction k arbitrary: c)
  case 0
  then show ?case
    using endif_update_closed [of n "last (nested_conditionals (last (blocks c)))"]
    by (simp add: with_last_nested_simps closed_forest_append)
next
  case (Suc k)
  from Suc.prems have "open_conditional (Suc k) n (last (nested_conditionals (last (blocks c))))"
    by simp
  from Suc.IH [OF this] Suc.prems show ?case
    by (simp add: with_last_nested_simps begin_line_update_open with_last_nested_def [of _ "last (nested_conditionals (last (blocks c)))"] Let_def)
qed

lemma open_conditional_if:
  "open_conditional k n c \<Longrightarrow>
     open_conditional (Suc k) (n + 1) (update_open k (nest_update (opened_at n t)) c)"
proof (induction k arbitrary: c)
  case 0
  then show ?case
    by (simp add: nest_update_def Let_def opened_at_def)
next
  case (Suc k)
  from Suc.prems have "open_conditional k n (last (nested_conditionals (last (blocks c))))"
    by simp
  from Suc.IH [OF this] Suc.prems show ?case
    by (simp add: with_last_nested_simps begin_line_update_open)
qed

lemma open_stack_0 [simp]: "open_stack 0 cs = []"
  by (simp add: open_stack_def)

lemma build_inv_mono:
  assumes "build_inv n st" and "n \<le> n'"
  shows "build_inv n' st"
proof (cases "length (stateStack st)")
  case 0
  with assms show ?thesis
    by (auto simp: build_inv_def intro: closed_forest_mono)
next
  case (Suc k)
  with assms show ?thesis
    by (auto simp: build_inv_def intro: open_conditional_mono)
qed

lemma build_inv_open:
  assumes "build_inv n st" and "length (stateStack st) = Suc k"
  shows "stateStack st = open_stack (Suc k) (conditionals st)"
    and "conditionals st \<noteq> []"
    and "closed_forest 0 (begin_line (last (conditionals st))) (butlast (conditionals st))"
    and "open_conditional k n (last (conditionals st))"
    and "has_path k (last (conditionals st))"
    and "blocks (open_at k (last (conditionals st))) \<noteq> []"
  using assms
  by (auto simp: build_inv_def dest: open_conditional_has_path open_conditional_blocks)

lemma build_inv_on_if:
  assumes "build_inv n st"
  shows "\<exists>st'. on_if st n t = Inr st' \<and> build_inv (n + 1) st' \<and>
           length (stateStack st') = Suc (length (stateStack st))"
proof (cases "length (stateStack st)")
  case 0
  with assms have "closed_forest 0 n (conditionals st)" and "stateStack st = []"
    by (simp_all add: build_inv_def)
  then show ?thesis
    by (simp add: on_if_top_level build_inv_def opened_at_def)
next
  case (Suc k)
  note inv = build_inv_open [OF assms Suc]
  from open_conditional_if [OF inv(4)] inv(2,3) Suc show ?thesis
    by (simp add: on_if_nested [OF inv(1,2,5,6)] build_inv_def begin_line_update_open)
qed

lemma build_inv_on_else:
  assumes "build_inv n st" and "stateStack st \<noteq> []"
  shows "\<exists>st'. on_else st n t = Inr st' \<and> build_inv (n + 1) st' \<and>
           length (stateStack st') = length (stateStack st)"
proof -
  from assms(2) obtain k where k: "length (stateStack st) = Suc k"
    by (cases "stateStack st") auto
  note inv = build_inv_open [OF assms(1) k]
  from open_conditional_else [OF inv(4)] inv(1,2,3,5) k show ?thesis
    by (simp add: on_else_effect [OF inv(1,2,5,6)] build_inv_def begin_line_update_open
        open_stack_update)
qed

lemma build_inv_on_endif:
  assumes "build_inv n st" and "stateStack st \<noteq> []"
  shows "\<exists>st'. on_endif st n = Inr st' \<and> build_inv (n + 1) st' \<and>
           Suc (length (stateStack st')) = length (stateStack st)"
proof -
  from assms(2) obtain k where k: "length (stateStack st) = Suc k"
    by (cases "stateStack st") auto
  note inv = build_inv_open [OF assms(1) k]
  let ?cs = "conditionals st"
  let ?cs' = "butlast ?cs @ [update_open k (endif_update n) (last ?cs)]"
  have stack: "open_stack k ?cs' = open_stack k ?cs"
    using inv(2,5) by (intro open_stack_update) simp_all
  have "case k of
          0 \<Rightarrow> closed_forest 0 (n + 1) ?cs'
        | Suc j \<Rightarrow> closed_forest 0 (begin_line (last ?cs')) (butlast ?cs') \<and>
                    open_conditional j (n + 1) (last ?cs')"
  proof (cases k)
    case 0
    with inv(3,4) endif_update_closed [of n "last ?cs"] show ?thesis
      by (simp add: closed_forest_append)
  next
    case (Suc j)
    with inv(3,4) open_conditional_endif [of j n "last ?cs"] show ?thesis
      by (simp add: begin_line_update_open del: update_open.simps)
  qed
  with stack k show ?thesis
    by (cases k) (simp_all add: on_endif_effect [OF inv(1,2,5,6)] build_inv_def del: update_open.simps)
qed

subsection \<open>The loop reads the logical lines\<close>

lemma physical_lines_nonempty [simp]: "physical_lines s \<noteq> []"
  by (induction s) (auto split: list.splits)

lemma join_lines_Cons: "ls \<noteq> [] \<Longrightarrow> join_lines (l # ls) = l @ CHR 0x0A # join_lines ls"
  by (cases ls) auto

lemma join_physical_lines: "join_lines (physical_lines s) = s"
proof (induction s)
  case Nil
  then show ?case by simp
next
  case (Cons c cs)
  show ?case
  proof (cases "physical_lines cs")
    case Nil
    then show ?thesis using physical_lines_nonempty [of cs] by simp
  next
    case (Cons l ls)
    with Cons.IH show ?thesis
      by (cases ls) (auto simp: join_lines_Cons)
  qed
qed

lemma physical_lines_no_newline: "l \<in> set (physical_lines s) \<Longrightarrow> CHR 0x0A \<notin> set l"
  by (induction s arbitrary: l) (auto split: if_splits list.splits)

lemma stream_of_physical_lines: "stream_of (physical_lines s) = \<lparr>unread = s, good = True\<rparr>"
  by (simp add: stream_of_def join_physical_lines)

lemma getline_stream_of:
  assumes "CHR 0x0A \<notin> set l"
  shows "getline (stream_of (l # ls)) str = (l, stream_of ls)"
proof (cases ls)
  case Nil
  from assms have "takeWhile (\<lambda>c. c \<noteq> CHR 0x0A) l = l"
    by (auto simp: takeWhile_eq_all_conv)
  with Nil show ?thesis
    by (simp add: getline_def stream_of_def Let_def del: takeWhile_eq_all_conv)
next
  case (Cons l' ls')
  from assms have "takeWhile (\<lambda>c. c \<noteq> CHR 0x0A) (l @ CHR 0x0A # join_lines ls) = l"
    by (induction l) auto
  with Cons show ?thesis
    by (simp add: getline_def stream_of_def Let_def)
qed

lemma last_append_line:
  "pre = [] \<or> last pre = CHR 0x0A \<Longrightarrow>
     (pre @ l \<noteq> [] \<and> last (pre @ l) = CHR 0x5C) = continued l"
  by (cases "l = []") (auto simp: continued_def)

lemma merge_continued_stream_of:
  assumes "\<forall>x \<in> set ls. CHR 0x0A \<notin> set x" and "pre = [] \<or> last pre = CHR 0x0A"
    and "take_logical_line l ls = (g, rest)"
  shows "merge_continued (stream_of ls) (pre @ l) k =
           (pre @ join_lines g, k + int (length g) - 1, stream_of rest)"
  using assms
proof (induction l ls arbitrary: pre k g rest rule: take_logical_line.induct)
  case (1 l)
  then show ?case
    by (subst merge_continued.simps) (auto simp: stream_of_def)
next
  case (2 l l' ls)
  show ?case
  proof (cases "continued l")
    case True
    obtain g' where g': "take_logical_line l' ls = (g', rest)" and g: "g = l # g'"
      using "2.prems"(3) True by (auto split: prod.splits)
    have ne: "g' \<noteq> []"
      using g' by (cases ls) (auto split: if_splits prod.splits)
    have "merge_continued (stream_of ls) ((pre @ l @ [CHR 0x0A]) @ l') (k + 1) =
        ((pre @ l @ [CHR 0x0A]) @ join_lines g', (k + 1) + int (length g') - 1, stream_of rest)"
      using "2.prems"(1) g' by (intro "2.IH" [OF True]) simp_all
    moreover have "good (stream_of (l' # ls))"
      by (simp add: stream_of_def)
    moreover have "getline (stream_of (l' # ls)) [] = (l', stream_of ls)"
      using "2.prems"(1) by (intro getline_stream_of) simp
    ultimately show ?thesis
      using True last_append_line [OF "2.prems"(2), of l] ne
      by (subst merge_continued.simps) (simp add: g join_lines_Cons)
  next
    case False
    with "2.prems"(3) have "g = [l]" and "rest = l' # ls"
      by simp_all
    with False last_append_line [OF "2.prems"(2), of l] show ?thesis
      by (subst merge_continued.simps) auto
  qed
qed

lemma read_logical_line_stream_of:
  assumes "\<forall>x \<in> set (l # ls). CHR 0x0A \<notin> set x" and "take_logical_line l ls = (g, rest)"
  shows "read_logical_line (stream_of (l # ls)) = (join_lines g, int (length g), stream_of rest)"
  using merge_continued_stream_of [of ls "[]" l g rest 1] assms
  by (simp add: read_logical_line_def getline_stream_of)

lemma take_logical_line_set:
  "take_logical_line l ls = (g, rest) \<Longrightarrow> g @ rest = l # ls"
  by (induction l ls arbitrary: g rest rule: take_logical_line.induct)
     (auto split: if_splits prod.splits)

lemma build_loop_run_lines:
  assumes "\<forall>x \<in> set ls. CHR 0x0A \<notin> set x"
  shows "build_loop (stream_of ls) n st = run_lines (logical_lines n ls) st"
  using assms
proof (induction n ls arbitrary: st rule: logical_lines.induct)
  case (1 n)
  then show ?case
    by (subst build_loop.simps) (simp add: stream_of_def)
next
  case (2 n l ls)
  obtain g rest where g: "take_logical_line l ls = (g, rest)"
    by (cases "take_logical_line l ls")
  from take_logical_line_set [OF g] "2.prems" have rest: "\<forall>x \<in> set rest. CHR 0x0A \<notin> set x"
    by (metis Un_iff set_append)
  have "good (stream_of (l # ls))"
    by (simp add: stream_of_def)
  with "2.IH" [OF g [symmetric] rest] read_logical_line_stream_of [OF "2.prems" g] g
  show ?case
    by (subst build_loop.simps) (simp split: sum.splits)
qed

subsection \<open>The loop preserves the invariant\<close>

lemma directive_Nil [simp]: "directive [] = None"
  by (simp add: directive_def find_first_not_of_def)

lemma process_logical_line_inv:
  assumes "build_inv m st" and "m \<le> n"
  shows "(\<exists>msg. process_logical_line st n text = Inl (Fatal msg)) \<or>
         (\<exists>st'. process_logical_line st n text = Inr st' \<and>
            (if text = [] then st' = st else build_inv (n + 1) st'))"
proof -
  from assms have inv: "build_inv n st"
    by (rule build_inv_mono)
  then have weak: "build_inv (n + 1) st"
    by (rule build_inv_mono) simp
  show ?thesis
  proof (cases "directive text")
    case None
    with weak show ?thesis
      by (simp add: process_logical_line_def)
  next
    case (Some d)
    then have ne: "text \<noteq> []"
      by auto
    consider (dir_if) "d = ''if'' \<or> d = ''ifdef'' \<or> d = ''ifndef''"
      | (dir_else) "\<not> (d = ''if'' \<or> d = ''ifdef'' \<or> d = ''ifndef'')" "d = ''else'' \<or> d = ''elif''"
      | (dir_endif) "\<not> (d = ''if'' \<or> d = ''ifdef'' \<or> d = ''ifndef'')" "\<not> (d = ''else'' \<or> d = ''elif'')"
          "d = ''endif''"
      | (other) "\<not> (d = ''if'' \<or> d = ''ifdef'' \<or> d = ''ifndef'')" "\<not> (d = ''else'' \<or> d = ''elif'')"
          "d \<noteq> ''endif''"
      by blast
    then show ?thesis
    proof cases
      case dir_if
      then have eq: "process_logical_line st n text = on_if st n text"
        using Some by (simp add: process_logical_line_def)
      from build_inv_on_if [OF inv, of "text"] obtain st'
        where "on_if st n text = Inr st'" and "build_inv (n + 1) st'"
        by blast
      with ne show ?thesis
        unfolding eq by simp
    next
      case dir_else
      then have eq: "process_logical_line st n text = on_else st n text"
        using Some by (simp add: process_logical_line_def)
      show ?thesis
      proof (cases "stateStack st = []")
        case True
        then show ?thesis
          unfolding eq by (simp add: on_else_def)
      next
        case False
        from build_inv_on_else [OF inv False, of "text"] obtain st'
          where "on_else st n text = Inr st'" and "build_inv (n + 1) st'"
          by blast
        with ne show ?thesis
          unfolding eq by simp
      qed
    next
      case dir_endif
      then have eq: "process_logical_line st n text = on_endif st n"
        using Some by (simp add: process_logical_line_def)
      show ?thesis
      proof (cases "stateStack st = []")
        case True
        then show ?thesis
          unfolding eq by (simp add: on_endif_def)
      next
        case False
        from build_inv_on_endif [OF inv False] obtain st'
          where "on_endif st n = Inr st'" and "build_inv (n + 1) st'"
          by blast
        with ne show ?thesis
          unfolding eq by simp
      qed
    next
      case other
      then have "process_logical_line st n text = Inr st"
        using Some by (simp add: process_logical_line_def)
      with weak ne show ?thesis by simp
    qed
  qed
qed

lemma real_lines_nonneg: "0 \<le> real_lines ls"
  by (cases ls) (auto simp: real_lines_def)

lemma real_lines_pos: "l \<noteq> [] \<Longrightarrow> 1 \<le> real_lines (l # ls)"
  by (cases ls) (auto simp: real_lines_def)

lemma real_lines_append: "rest \<noteq> [] \<Longrightarrow> real_lines (g @ rest) = int (length g) + real_lines rest"
  by (simp add: real_lines_def)

lemma take_logical_line_nonempty: "take_logical_line l ls = (g, rest) \<Longrightarrow> g \<noteq> []"
  by (cases ls) (auto split: if_splits prod.splits)

lemma take_logical_line_first:
  "take_logical_line l ls = (g, rest) \<Longrightarrow> g \<noteq> [] \<and> hd g = l \<and> (join_lines g = [] \<longleftrightarrow> l = [])"
  by (cases ls)
     (auto simp: continued_def join_lines_Cons split: if_splits prod.splits
       dest: take_logical_line_nonempty)

lemma run_lines_inv:
  assumes "build_inv m st" and "m \<le> n"
  shows "(\<exists>msg. run_lines (logical_lines n ls) st = Inl (Fatal msg)) \<or>
         (\<exists>st'. run_lines (logical_lines n ls) st = Inr st' \<and>
            build_inv (max m (n + real_lines ls)) st')"
  using assms
proof (induction n ls arbitrary: m st rule: logical_lines.induct)
  case (1 n)
  then show ?case
    by (auto intro: build_inv_mono)
next
  case (2 n l ls)
  obtain g rest where g: "take_logical_line l ls = (g, rest)"
    by (cases "take_logical_line l ls")
  note first = take_logical_line_first [OF g]
  note whole = take_logical_line_set [OF g]
  let ?text = "join_lines g"
  from process_logical_line_inv [OF "2.prems", of ?text]
  consider (fatal) msg where "process_logical_line st n ?text = Inl (Fatal msg)"
    | (ok) st1 where "process_logical_line st n ?text = Inr st1"
        and "if ?text = [] then st1 = st else build_inv (n + 1) st1"
    by blast
  then show ?case
  proof cases
    case fatal
    with g show ?thesis by simp
  next
    case ok
    have len: "1 \<le> int (length g)"
      using first by (cases g) auto
    define m1 where "m1 = (if ?text = [] then m else n + 1)"
    have inv1: "build_inv m1 st1" and m1: "m1 \<le> n + int (length g)"
      using ok(2) "2.prems" len by (auto simp: m1_def)
    show ?thesis
    proof (cases "rest = []")
      case True
      have "m1 \<le> max m (n + real_lines (l # ls))"
        using first real_lines_pos [of l ls] by (auto simp: m1_def)
      with inv1 have "build_inv (max m (n + real_lines (l # ls))) st1"
        by (rule build_inv_mono)
      with True g ok(1) show ?thesis by simp
    next
      case False
      have rl: "real_lines (l # ls) = int (length g) + real_lines rest"
        using real_lines_append [OF False, of g] whole by simp
      have le: "max m1 (n + int (length g) + real_lines rest) \<le> max m (n + real_lines (l # ls))"
        using rl len real_lines_nonneg [of rest] by (auto simp: m1_def)
      from "2.IH" [OF g [symmetric] inv1 m1]
      consider (fatal') msg where
          "run_lines (logical_lines (n + int (length g)) rest) st1 = Inl (Fatal msg)"
        | (ok') st' where "run_lines (logical_lines (n + int (length g)) rest) st1 = Inr st'"
            and "build_inv (max m1 (n + int (length g) + real_lines rest)) st'"
        by blast
      then show ?thesis
      proof cases
        case fatal'
        with g ok(1) show ?thesis by simp
      next
        case ok'
        from build_inv_mono [OF ok'(2) le] ok'(1) g ok(1) show ?thesis by simp
      qed
    qed
  qed
qed

lemma build_closed:
  "(\<exists>msg. build content = Inl (Fatal msg)) \<or>
   (\<exists>forest. build content = Inr forest \<and> closed_forest 0 (1 + line_count content) forest)"
proof -
  let ?init = "\<lparr>conditionals = [], stateStack = []\<rparr>"
  have init: "build_inv 1 ?init"
    by (simp add: build_inv_def)
  have loop: "build_loop \<lparr>unread = content, good = True\<rparr> 1 ?init =
      run_lines (logical_lines 1 (physical_lines content)) ?init"
    using build_loop_run_lines [of "physical_lines content" 1 ?init]
    by (simp add: stream_of_physical_lines physical_lines_no_newline)
  have bound: "max 1 (1 + real_lines (physical_lines content)) = 1 + line_count content"
    using real_lines_nonneg [of "physical_lines content"] by (simp add: line_count_def)
  from run_lines_inv [OF init order_refl, of "physical_lines content"]
  consider (fatal) msg where
      "run_lines (logical_lines 1 (physical_lines content)) ?init = Inl (Fatal msg)"
    | (ok) st' where "run_lines (logical_lines 1 (physical_lines content)) ?init = Inr st'"
        and "build_inv (1 + line_count content) st'"
    unfolding bound by blast
  then show ?thesis
  proof cases
    case fatal
    then show ?thesis
      unfolding build_def loop by simp
  next
    case ok
    show ?thesis
    proof (cases "stateStack st' = []")
      case True
      with ok(2) have "closed_forest 0 (1 + line_count content) (conditionals st')"
        by (simp add: build_inv_def)
      with True ok(1) show ?thesis
        unfolding build_def loop by simp
    next
      case False
      with ok(1) show ?thesis
        unfolding build_def loop by simp
    qed
  qed
qed

subsection \<open>The query on a closed forest\<close>

lemma all_conditionals_closed:
  "closed_forest lo hi cs \<Longrightarrow> c \<in> set (all_conditionals cs) \<Longrightarrow>
     closed_conditional c \<and> lo < begin_line c \<and> end_line c < hi"
  and blocks_conditionals_closed:
  "chain b bs e \<Longrightarrow> c \<in> set (blocks_conditionals bs) \<Longrightarrow>
     closed_conditional c \<and> b < begin_line c \<and> end_line c < e"
proof (induction lo hi cs and b bs e arbitrary: c and c rule: closed_forest_chain.induct)
  case (1 lo hi)
  then show ?case by simp
next
  case (2 lo hi b e bs conds)
  from "2.prems" have ch: "chain b bs e" and ne: "bs \<noteq> []" and lo: "lo < b"
    and rest: "closed_forest e hi conds"
    by simp_all
  from chain_less [OF ne ch] have be: "b < e" .
  from closed_forest_less [OF rest] have ehi: "e < hi" .
  from "2.prems"(2) consider "c = Conditional b e bs" | "c \<in> set (blocks_conditionals bs)"
    | "c \<in> set (all_conditionals conds)"
    by auto
  then show ?case
  proof cases
    case 1
    with ch ne lo ehi show ?thesis by (simp add: closed_conditional_def)
  next
    case 2
    from "2.IH"(1) [OF ch 2] "2.prems"(1) lo ehi show ?thesis by simp
  next
    case 3
    from "2.IH"(2) [OF rest 3] "2.prems"(1) lo be show ?thesis by simp
  qed
next
  case (3 "from" to)
  then show ?case by simp
next
  case (4 "from" b e t nested bs to)
  from "4.prems" have n: "closed_forest b e nested" and ch: "chain e bs to" and b: "b = from"
    by auto
  from closed_forest_less [OF n] have be: "b < e" .
  from chain_le [OF ch] have eto: "e \<le> to" .
  from "4.prems"(2) consider "c \<in> set (all_conditionals nested)" | "c \<in> set (blocks_conditionals bs)"
    by auto
  then show ?case
  proof cases
    case 1
    from "4.IH"(1) [OF n 1] "4.prems"(1) b eto show ?thesis by simp
  next
    case 2
    from "4.IH"(2) [OF ch 2] "4.prems"(1) b be show ?thesis by simp
  qed
qed

lemma chain_partition:
  "chain b bs e \<Longrightarrow> bs \<noteq> [] \<Longrightarrow>
     block_begin_line (hd bs) = b \<and> block_end_line (last bs) = e \<and>
     (\<forall>i. Suc i < length bs \<longrightarrow> block_end_line (bs ! i) = block_begin_line (bs ! Suc i)) \<and>
     (\<forall>x \<in> set bs. block_begin_line x < block_end_line x)"
proof (induction bs arbitrary: b)
  case Nil
  then show ?case by simp
next
  case (Cons x xs)
  from Cons.prems have x: "block_begin_line x = b"
    and n: "closed_forest b (block_end_line x) (nested_conditionals x)"
    and ch: "chain (block_end_line x) xs e"
    by (cases x; simp)+
  from closed_forest_less [OF n] x have lt: "block_begin_line x < block_end_line x"
    by simp
  show ?case
  proof (cases xs)
    case Nil
    with x ch lt show ?thesis by simp
  next
    case (Cons y ys)
    with Cons.IH [OF ch] have ih: "block_begin_line (hd xs) = block_end_line x"
      "block_end_line (last xs) = e"
      "\<forall>i. Suc i < length xs \<longrightarrow> block_end_line (xs ! i) = block_begin_line (xs ! Suc i)"
      "\<forall>x \<in> set xs. block_begin_line x < block_end_line x"
      by simp_all
    have "block_end_line ((x # xs) ! i) = block_begin_line ((x # xs) ! Suc i)"
      if "Suc i < length (x # xs)" for i
    proof (cases i)
      case 0
      with ih(1) Cons show ?thesis by simp
    next
      case (Suc j)
      with that ih(3) show ?thesis by simp
    qed
    with x ih(2,4) lt Cons show ?thesis by simp
  qed
qed

lemma process_line_entries:
  "closed_forest lo hi cs \<Longrightarrow> x \<in> set (process_line line cs) \<Longrightarrow>
     lo < entry_line x \<and> entry_line x < hi"
  and process_blocks_entries:
  "chain b bs e \<Longrightarrow> x \<in> set (process_blocks line bs) \<Longrightarrow>
     b \<le> entry_line x \<and> entry_line x < e"
proof (induction lo hi cs and b bs e arbitrary: x and x rule: closed_forest_chain.induct)
  case (1 lo hi)
  then show ?case by simp
next
  case (2 lo hi b e bs conds)
  from "2.prems" have ch: "chain b bs e" and ne: "bs \<noteq> []" and lo: "lo < b"
    and rest: "closed_forest e hi conds"
    by simp_all
  from chain_less [OF ne ch] have be: "b < e" .
  from closed_forest_less [OF rest] have ehi: "e < hi" .
  show ?case
  proof (cases "b \<le> line \<and> e \<ge> line")
    case True
    with "2.prems"(2) have "x \<in> set (process_blocks line bs)" by simp
    from "2.IH"(1) [OF ch this] lo ehi show ?thesis by simp
  next
    case False
    with "2.prems"(2) have "x \<in> set (process_line line conds)" by auto
    from "2.IH"(2) [OF rest this] lo be show ?thesis by simp
  qed
next
  case (3 "from" to)
  then show ?case by simp
next
  case (4 "from" b e t nested bs to)
  from "4.prems" have n: "closed_forest b e nested" and ch: "chain e bs to" and b: "b = from"
    by auto
  from closed_forest_less [OF n] have be: "b < e" .
  from chain_le [OF ch] have eto: "e \<le> to" .
  show ?case
  proof (cases "b \<le> line \<and> e > line")
    case True
    with "4.prems"(2) consider "x = Requires True b (c_str t)" | "x \<in> set (process_line line nested)"
      by auto
    then show ?thesis
    proof cases
      case 1
      with b be eto show ?thesis by simp
    next
      case 2
      from "4.IH"(1) [OF n 2] b eto show ?thesis by simp
    qed
  next
    case False
    with "4.prems"(2) consider "x = Requires False b (c_str t)" | "x \<in> set (process_blocks line bs)"
      by auto
    then show ?thesis
    proof cases
      case 1
      with b be eto show ?thesis by simp
    next
      case 2
      from "4.IH"(2) [OF ch 2] b be show ?thesis by simp
    qed
  qed
qed

lemma process_line_reaches:
  "closed_forest lo hi cs \<Longrightarrow> c \<in> set (all_conditionals cs) \<Longrightarrow>
     begin_line c \<le> line \<Longrightarrow> line \<le> end_line c \<Longrightarrow>
     \<exists>pre. process_line line cs = pre @ process_blocks line (blocks c) \<and>
           (\<forall>x \<in> set pre. entry_line x < begin_line c)"
  and process_blocks_reaches:
  "chain b bs e \<Longrightarrow> c \<in> set (blocks_conditionals bs) \<Longrightarrow>
     begin_line c \<le> line \<Longrightarrow> line \<le> end_line c \<Longrightarrow>
     \<exists>pre. process_blocks line bs = pre @ process_blocks line (blocks c) \<and>
           (\<forall>x \<in> set pre. entry_line x < begin_line c)"
proof (induction lo hi cs and b bs e arbitrary: c and c rule: closed_forest_chain.induct)
  case (1 lo hi)
  then show ?case by simp
next
  case (2 lo hi b e bs conds)
  from "2.prems"(1) have ch: "chain b bs e" and ne: "bs \<noteq> []" and lo: "lo < b"
    and rest: "closed_forest e hi conds"
    by simp_all
  from "2.prems"(2) consider "c = Conditional b e bs" | "c \<in> set (blocks_conditionals bs)"
    | "c \<in> set (all_conditionals conds)"
    by auto
  then show ?case
  proof cases
    case 1
    with "2.prems"(3,4) show ?thesis by simp
  next
    case 2
    from blocks_conditionals_closed [OF ch 2] "2.prems"(3,4) have "b \<le> line \<and> e \<ge> line"
      by simp
    then have "process_line line (Conditional b e bs # conds) = process_blocks line bs"
      by auto
    with "2.IH"(1) [OF ch 2 "2.prems"(3,4)] show ?thesis by (simp only:)
  next
    case 3
    from all_conditionals_closed [OF rest 3] "2.prems"(3,4) have "\<not> (b \<le> line \<and> e \<ge> line)"
      by simp
    then have "process_line line (Conditional b e bs # conds) = process_line line conds"
      by auto
    with "2.IH"(2) [OF rest 3 "2.prems"(3,4)] show ?thesis by (simp only:)
  qed
next
  case (3 "from" to)
  then show ?case by simp
next
  case (4 "from" b e t nested bs to)
  from "4.prems"(1) have n: "closed_forest b e nested" and ch: "chain e bs to" and b: "b = from"
    by auto
  from closed_forest_less [OF n] have be: "b < e" .
  from "4.prems"(2) consider "c \<in> set (all_conditionals nested)" | "c \<in> set (blocks_conditionals bs)"
    by auto
  then show ?case
  proof cases
    case 1
    from all_conditionals_closed [OF n 1] "4.prems"(3,4)
    have range: "b \<le> line \<and> e > line" and lt: "b < begin_line c"
      by simp_all
    from "4.IH"(1) [OF n 1 "4.prems"(3,4)] obtain pre
      where "process_line line nested = pre @ process_blocks line (blocks c)"
        and "\<forall>x \<in> set pre. entry_line x < begin_line c"
      by blast
    with range lt show ?thesis
      by (intro exI [of _ "Requires True b (c_str t) # pre"]) simp
  next
    case 2
    from blocks_conditionals_closed [OF ch 2] "4.prems"(3,4) be
    have range: "\<not> (b \<le> line \<and> e > line)" and lt: "b < begin_line c"
      by simp_all
    from "4.IH"(2) [OF ch 2 "4.prems"(3,4)] obtain pre
      where "process_blocks line bs = pre @ process_blocks line (blocks c)"
        and "\<forall>x \<in> set pre. entry_line x < begin_line c"
      by blast
    with range lt show ?thesis
      by (intro exI [of _ "Requires False b (c_str t) # pre"]) simp
  qed
qed

lemma process_blocks_past_end:
  "chain b bs e \<Longrightarrow> e \<le> line \<Longrightarrow>
     process_blocks line bs = false_entries bs \<and>
     (\<forall>x \<in> set bs. \<not> (block_begin_line x \<le> line \<and> block_end_line x > line))"
proof (induction bs arbitrary: b)
  case Nil
  then show ?case by (simp add: false_entries_def)
next
  case (Cons x xs)
  from Cons.prems(1) have ch: "chain (block_end_line x) xs e"
    by (cases x) simp
  from chain_le [OF ch] Cons.prems(2) have "\<not> block_end_line x > line"
    by simp
  with Cons.IH [OF ch Cons.prems(2)] show ?case
    by (cases x) (simp add: false_entries_def)
qed

lemma process_blocks_inside:
  "chain b bs e \<Longrightarrow> b \<le> line \<Longrightarrow> line < e \<Longrightarrow>
     \<exists>pre x post. bs = pre @ x # post \<and>
        block_begin_line x \<le> line \<and> line < block_end_line x \<and>
        chain (block_end_line x) post e \<and>
        process_blocks line bs =
          false_entries pre @ Requires True (block_begin_line x) (c_str (condition x))
            # process_line line (nested_conditionals x)"
proof (induction bs arbitrary: b)
  case Nil
  then show ?case by simp
next
  case (Cons y ys)
  from Cons.prems(1) have y: "block_begin_line y = b" and ch: "chain (block_end_line y) ys e"
    by (cases y; simp)+
  show ?case
  proof (cases "line < block_end_line y")
    case True
    with y Cons.prems(2) ch have
      "y # ys = [] @ y # ys \<and> block_begin_line y \<le> line \<and> line < block_end_line y \<and>
       chain (block_end_line y) ys e \<and>
       process_blocks line (y # ys) =
         false_entries [] @ Requires True (block_begin_line y) (c_str (condition y))
           # process_line line (nested_conditionals y)"
      by (cases y) (simp add: false_entries_def)
    then show ?thesis by blast
  next
    case False
    then have le: "block_end_line y \<le> line" by simp
    from Cons.IH [OF ch le Cons.prems(3)] obtain pre x post
      where "ys = pre @ x # post" and "block_begin_line x \<le> line" and "line < block_end_line x"
        and "chain (block_end_line x) post e"
        and "process_blocks line ys =
          false_entries pre @ Requires True (block_begin_line x) (c_str (condition x))
            # process_line line (nested_conditionals x)"
      by blast
    with False have
      "y # ys = (y # pre) @ x # post \<and> block_begin_line x \<le> line \<and> line < block_end_line x \<and>
       chain (block_end_line x) post e \<and>
       process_blocks line (y # ys) =
         false_entries (y # pre) @ Requires True (block_begin_line x) (c_str (condition x))
           # process_line line (nested_conditionals x)"
      by (cases y) (simp add: false_entries_def)
    then show ?thesis by blast
  qed
qed

lemma chain_bounds:
  "chain b bs e \<Longrightarrow> y \<in> set bs \<Longrightarrow> b \<le> block_begin_line y \<and> block_end_line y \<le> e"
proof (induction bs arbitrary: b)
  case Nil
  then show ?case by simp
next
  case (Cons x xs)
  from Cons.prems(1) have x: "block_begin_line x = b"
    and n: "closed_forest b (block_end_line x) (nested_conditionals x)"
    and ch: "chain (block_end_line x) xs e"
    by (cases x; simp)+
  from closed_forest_less [OF n] chain_le [OF ch] Cons.IH [OF ch] Cons.prems(2) x
  show ?case by auto
qed

lemma chain_block_closed:
  "chain b bs e \<Longrightarrow> y \<in> set bs \<Longrightarrow>
     closed_forest (block_begin_line y) (block_end_line y) (nested_conditionals y)"
proof (induction bs arbitrary: b)
  case Nil
  then show ?case by simp
next
  case (Cons x xs)
  from Cons.prems(1) have x: "block_begin_line x = b"
    and n: "closed_forest b (block_end_line x) (nested_conditionals x)"
    and ch: "chain (block_end_line x) xs e"
    by (cases x; simp)+
  from Cons.IH [OF ch] Cons.prems(2) x n show ?case by auto
qed

lemma process_line_outside:
  "\<forall>c \<in> set forest. \<not> (begin_line c \<le> line \<and> end_line c \<ge> line) \<Longrightarrow>
     process_line line forest = []"
proof (induction forest)
  case Nil
  then show ?case by simp
next
  case (Cons c cs)
  then show ?case by (cases c) auto
qed

lemma built_closed:
  assumes "build content = Inr forest"
  shows "closed_forest 0 (1 + line_count content) forest"
  using build_closed [of content] assms by auto

lemma closed_forest_top_level:
  "closed_forest lo hi cs \<Longrightarrow> c \<in> set cs \<Longrightarrow> lo < begin_line c \<and> end_line c < hi"
proof (induction cs arbitrary: lo)
  case Nil
  then show ?case by simp
next
  case (Cons a cs)
  from Cons.prems(1) have lo: "lo < begin_line a" and ne: "blocks a \<noteq> []"
    and ch: "chain (begin_line a) (blocks a) (end_line a)"
    and rest: "closed_forest (end_line a) hi cs"
    by (cases a; simp)+
  from chain_less [OF ne ch] closed_forest_less [OF rest] Cons.IH [OF rest] Cons.prems(2) lo
  show ?case by auto
qed

lemma chain_before:
  "chain b0 (pre @ x # post) e \<Longrightarrow> y \<in> set pre \<Longrightarrow> block_begin_line y < block_begin_line x"
proof (induction pre arbitrary: b0)
  case Nil
  then show ?case by simp
next
  case (Cons a pre)
  from Cons.prems(1) have n: "closed_forest (block_begin_line a) (block_end_line a) (nested_conditionals a)"
    and ch: "chain (block_end_line a) (pre @ x # post) e"
    by (cases a; simp)+
  from chain_bounds [OF ch, of x] have "block_end_line a \<le> block_begin_line x"
    by simp
  with closed_forest_less [OF n] Cons.IH [OF ch] Cons.prems(2) show ?case
    by auto
qed

subsection \<open>The classifier\<close>

lemma find_upt_dropWhile:
  "List.find (\<lambda>i. \<not> P (s ! i)) [pos ..< length s] =
     (if dropWhile P (drop pos s) = [] then None
      else Some (pos + length (takeWhile P (drop pos s))))"
proof (induction "length s - pos" arbitrary: pos)
  case 0
  then show ?case by simp
next
  case (Suc k)
  then have lt: "pos < length s" by simp
  then have upt: "[pos ..< length s] = pos # [Suc pos ..< length s]"
    by (rule upt_conv_Cons)
  from lt have drop: "drop pos s = s ! pos # drop (Suc pos) s"
    by (rule Cons_nth_drop_Suc [symmetric])
  from Suc.hyps(2) have "k = length s - Suc pos" by simp
  from Suc.hyps(1) [OF this] show ?case
    unfolding upt drop by simp
qed

lemma find_first_not_of_conv:
  "find_first_not_of s whitespace pos =
     (if dropWhile is_blank (drop pos s) = [] then None
      else Some (pos + length (takeWhile is_blank (drop pos s))))"
proof -
  have "(\<lambda>c. c \<in> set whitespace) = is_blank"
    by (auto simp: whitespace_def is_blank_def)
  with find_upt_dropWhile [of "\<lambda>c. c \<in> set whitespace" s pos] show ?thesis
    by (simp add: find_first_not_of_def)
qed

lemma scan_alpha_conv:
  "pos \<le> length s \<Longrightarrow> scan_alpha s pos = pos + length (takeWhile isalpha (drop pos s))"
proof (induction s pos rule: scan_alpha.induct)
  case (1 currentLine endPos)
  show ?case
  proof (cases "endPos < length currentLine")
    case True
    then have drop: "drop endPos currentLine = currentLine ! endPos # drop (Suc endPos) currentLine"
      by (rule Cons_nth_drop_Suc [symmetric])
    show ?thesis
    proof (cases "isalpha (currentLine ! endPos)")
      case alpha: True
      with True "1.IH" show ?thesis
        unfolding drop by (subst scan_alpha.simps) simp
    next
      case False
      with True show ?thesis
        unfolding drop by (subst scan_alpha.simps) simp
    qed
  next
    case False
    then show ?thesis
      by (subst scan_alpha.simps) simp
  qed
qed

lemma directive_keyword_of: "directive line = keyword_of line"
proof -
  let ?a = "takeWhile is_blank line" and ?r = "dropWhile is_blank line"
  have line: "line = ?a @ ?r" by simp
  show ?thesis
  proof (cases ?r)
    case Nil
    then show ?thesis
      by (simp add: directive_def keyword_of_def find_first_not_of_conv del: dropWhile_eq_Nil_conv)
  next
    case (Cons c rest)
    then have first: "find_first_not_of line whitespace 0 = Some (length ?a)"
      by (simp add: find_first_not_of_conv del: dropWhile_eq_Nil_conv)
    have at: "line ! length ?a = c"
      using Cons by (subst line) (simp only: nth_append_length)
    have after: "drop (length ?a + 1) line = rest"
      using Cons by (subst line) (simp only: drop_append, simp)
    show ?thesis
    proof (cases "c = CHR ''#''")
      case False
      with first at Cons show ?thesis
        by (simp add: directive_def keyword_of_def del: dropWhile_eq_Nil_conv)
    next
      case True
      let ?b = "takeWhile is_blank rest" and ?r2 = "dropWhile is_blank rest"
      show ?thesis
      proof (cases ?r2)
        case Nil
        with first at after True Cons show ?thesis
          by (simp add: directive_def keyword_of_def find_first_not_of_conv del: dropWhile_eq_Nil_conv)
      next
        case r2: (Cons k ks)
        let ?pos = "length ?a + 1 + length ?b"
        from r2 after have second: "find_first_not_of line whitespace (length ?a + 1) = Some ?pos"
          by (simp add: find_first_not_of_conv del: dropWhile_eq_Nil_conv)
        have "line = (?a @ c # ?b) @ ?r2"
          using Cons by (subst line) simp
        then have "drop (length (?a @ c # ?b)) line = ?r2"
          by (metis append_eq_conv_conj)
        then have rest2: "drop ?pos line = ?r2"
          by simp
        have le: "?pos \<le> length line"
          by (subst (2) line) (simp add: Cons Suc_le_eq length_takeWhile_le le_imp_less_Suc)
        have "take (scan_alpha line ?pos - ?pos) (drop ?pos line) = takeWhile isalpha ?r2"
          unfolding scan_alpha_conv [OF le] rest2 by (simp add: takeWhile_eq_take [symmetric])
        with first at True second Cons r2 show ?thesis
          by (simp add: directive_def keyword_of_def Let_def del: dropWhile_eq_Nil_conv)
      qed
    qed
  qed
qed

subsection \<open>Arguments before \<^verbatim>\<open>--help\<close>\<close>

lemma parse_lines_before_flag:
  assumes "first_char h = CHR ''-''" and "parse_lines atoi ls pre = Inr (ls', pre')"
  shows "parse_lines atoi ls (pre @ h # rest) = Inr (ls', pre' @ h # rest)"
  using assms(2)
proof (induction pre arbitrary: ls)
  case Nil
  with assms(1) show ?case by simp
next
  case (Cons a pre)
  show ?case
  proof (cases "first_char a \<noteq> CHR ''-''")
    case True
    with Cons.prems have pos: "\<not> atoi a \<le> 0"
      and rec: "parse_lines atoi (ls @ [atoi a]) pre = Inr (ls', pre')"
      by (auto simp: Let_def split: if_splits)
    from Cons.IH [OF rec] True pos show ?thesis
      by (simp add: Let_def)
  next
    case False
    with Cons.prems show ?thesis by auto
  qed
qed

lemma parse_args_before_help:
  "parse_args atoi filePath lines pre = Inr (filePath', lines') \<Longrightarrow>
     parse_args atoi filePath lines (pre @ ''--help'' # rest) = Inl ([Usage], 0)"
proof (induction atoi filePath lines pre rule: parse_args.induct)
  case (1 atoi filePath lines)
  then show ?case by simp
next
  case (2 atoi filePath lines arg args)
  show ?case
  proof (cases "arg = ''--file''")
    case True
    with "2.prems" obtain path args' where args: "args = path # args'" and empty: "filePath = []"
      and rec: "parse_args atoi path lines args' = Inr (filePath', lines')"
      by (auto split: if_splits list.splits)
    from "2.IH"(1) [OF True _ args rec] True args empty show ?thesis
      by simp
  next
    case False
    note not_file = this
    show ?thesis
    proof (cases "arg = ''--lines''")
      case True
      with "2.prems" obtain lines1 args1
        where pl: "parse_lines atoi lines args = Inr (lines1, args1)"
          and rec: "parse_args atoi filePath lines1 args1 = Inr (filePath', lines')"
        by (auto split: sum.splits)
      have "first_char ''--help'' = CHR ''-''"
        by (simp add: first_char_def)
      from parse_lines_before_flag [OF this pl]
      have "parse_lines atoi lines (args @ ''--help'' # rest) = Inr (lines1, args1 @ ''--help'' # rest)" .
      with "2.IH"(2) [OF not_file True pl refl rec] True show ?thesis
        by simp
    next
      case False
      with not_file "2.prems" show ?thesis
        by (auto split: if_splits)
    qed
  qed
qed

subsection \<open>Whole runs\<close>

lemma run_lines_append:
  "run_lines (xs @ ys) st =
     (case run_lines xs st of Inl f \<Rightarrow> Inl f | Inr st' \<Rightarrow> run_lines ys st')"
  by (induction xs arbitrary: st) (auto split: sum.splits)

lemma build_run_lines:
  "build content =
     (case run_lines (logical_lines 1 (physical_lines content)) \<lparr>conditionals = [], stateStack = []\<rparr> of
        Inl f \<Rightarrow> Inl f
      | Inr st \<Rightarrow>
          if stateStack st \<noteq> [] then Inl (Fatal Reached_end_of_file_with_an_active_conditional_block)
          else Inr (conditionals st))"
  using build_loop_run_lines [of "physical_lines content" 1 "\<lparr>conditionals = [], stateStack = []\<rparr>"]
  by (simp add: build_def stream_of_physical_lines physical_lines_no_newline)

lemma take_logical_line_length_pos:
  "take_logical_line l ls = (g, rest) \<Longrightarrow> 1 \<le> int (length g)"
  by (drule take_logical_line_nonempty) (cases g, auto)

lemma logical_lines_increasing:
  "sorted_wrt (\<lambda>a b. fst a < fst b) (logical_lines n ls) \<and>
   (\<forall>x \<in> set (logical_lines n ls). n \<le> fst x)"
proof (induction n ls rule: logical_lines.induct)
  case (1 n)
  then show ?case by simp
next
  case (2 n l ls)
  obtain g rest where g: "take_logical_line l ls = (g, rest)"
    by (cases "take_logical_line l ls")
  from "2.IH" [OF g [symmetric]] take_logical_line_length_pos [OF g] g show ?case
    by fastforce
qed

lemma run_lines_prefix_inv:
  assumes "sorted_wrt (\<lambda>a b. fst a < fst b) xs" and "\<forall>x \<in> set xs. m \<le> fst x \<and> fst x < n"
    and "m \<le> n" and "build_inv m st" and "run_lines xs st = Inr st'"
  shows "build_inv n st'"
  using assms
proof (induction xs arbitrary: m st)
  case Nil
  then show ?case by (auto intro: build_inv_mono)
next
  case (Cons x xs)
  obtain k t where x: "x = (k, t)" by (cases x)
  from Cons.prems(2) x have mk: "m \<le> k" and kn: "k < n" by simp_all
  from Cons.prems(5) x obtain st1 where st1: "process_logical_line st k t = Inr st1"
    and rest: "run_lines xs st1 = Inr st'"
    by (auto split: sum.splits)
  from process_logical_line_inv [OF Cons.prems(4) mk, of t] st1
  have "if t = [] then st1 = st else build_inv (k + 1) st1"
    by simp
  with Cons.prems(4) mk have inv1: "build_inv (k + 1) st1"
    by (auto intro: build_inv_mono split: if_splits)
  from Cons.prems(1,2) x have "\<forall>y \<in> set xs. k + 1 \<le> fst y \<and> fst y < n"
    by auto
  moreover from Cons.prems(1) have "sorted_wrt (\<lambda>a b. fst a < fst b) xs"
    by simp
  ultimately show ?case
    using kn inv1 rest by (intro Cons.IH [of "k + 1" st1]) simp_all
qed

lemma run_prefix_inv:
  assumes "logical_lines 1 (physical_lines content) = pre @ (n, t) # post"
    and "run_lines pre \<lparr>conditionals = [], stateStack = []\<rparr> = Inr st"
  shows "build_inv n st"
proof -
  from logical_lines_increasing [of 1 "physical_lines content"] assms(1)
  have sorted: "sorted_wrt (\<lambda>a b. fst a < fst b) (pre @ (n, t) # post)"
    and low: "\<forall>x \<in> set (pre @ (n, t) # post). 1 \<le> fst x"
    by simp_all
  from sorted have "sorted_wrt (\<lambda>a b. fst a < fst b) pre" and "\<forall>x \<in> set pre. fst x < n"
    by (auto simp: sorted_wrt_append)
  moreover from low have "\<forall>x \<in> set pre. 1 \<le> fst x" and "1 \<le> n"
    by auto
  moreover have "build_inv 1 \<lparr>conditionals = [], stateStack = []\<rparr>"
    by (simp add: build_inv_def)
  ultimately show ?thesis
    using assms(2) by (intro run_lines_prefix_inv [of pre 1 n]) auto
qed

lemma main_after_parse:
  assumes "parse_args atoi [] [] args = Inr (path, lines)" and "path \<noteq> []" and "lines \<noteq> []"
    and "fs path = Some content"
  shows "main atoi fs args =
     (case build content of
        Inl (Crash c) \<Rightarrow> Inl c
      | Inl (Fatal msg) \<Rightarrow>
          Inr \<lparr>exit_code = - 1, printed_lines = [Error msg], opened = [path]\<rparr>
      | Inr forest \<Rightarrow>
          Inr \<lparr>exit_code = 0,
               printed_lines =
                 concat (map (\<lambda>line. Requirements_for_line line # process_line line forest @ [Blank]) lines),
               opened = [path]\<rparr>)"
  using assms by (simp add: main_def)

text \<open>
  Every run returns: no assertion of the builder fails and no pointer of the stack is
  used where it points to nothing.
\<close>

lemma main_returns: "\<exists>r. main atoi fs args = Inr r"
proof -
  have "\<exists>r. (case build content of
      Inl (Crash c) \<Rightarrow> Inl c
    | Inl (Fatal msg) \<Rightarrow> Inr (f msg)
    | Inr forest \<Rightarrow> Inr (g forest)) = Inr r" for content and f g :: "_ \<Rightarrow> result"
    using build_closed [of content] by auto
  then show ?thesis
    unfolding main_def by (auto split: sum.splits prod.splits option.splits)
qed

subsection \<open>Numbering of the logical lines and what a directive records\<close>

lemma count_list_append: "count_list (xs @ ys) a = count_list xs a + count_list ys a"
  by (induction xs) auto

lemma count_list_none: "a \<notin> set xs \<Longrightarrow> count_list xs a = 0"
  by (induction xs) auto

lemma count_newlines_join:
  "\<forall>x \<in> set g. CHR 0x0A \<notin> set x \<Longrightarrow> g \<noteq> [] \<Longrightarrow>
     Suc (count_list (join_lines g) (CHR 0x0A)) = length g"
proof (induction g rule: join_lines.induct)
  case 1
  then show ?case by simp
next
  case (2 l)
  then show ?case by (simp add: count_list_none)
next
  case (3 l l' ls)
  then show ?case by (simp add: count_list_append count_list_none)
qed

lemma logical_lines_numbering:
  assumes "\<forall>x \<in> set ls. CHR 0x0A \<notin> set x"
  shows "(ls \<noteq> [] \<longrightarrow> logical_lines n ls \<noteq> [] \<and> fst (hd (logical_lines n ls)) = n) \<and>
         (\<forall>i. Suc i < length (logical_lines n ls) \<longrightarrow>
            fst (logical_lines n ls ! Suc i) =
              fst (logical_lines n ls ! i) + 1 +
                int (count_list (snd (logical_lines n ls ! i)) (CHR 0x0A))) \<and>
         (\<forall>x \<in> set (logical_lines n ls).
            snd x = join_lines (take (Suc (count_list (snd x) (CHR 0x0A)))
                                  (drop (nat (fst x - n)) ls)))"
  using assms
proof (induction n ls rule: logical_lines.induct)
  case (1 n)
  then show ?case by simp
next
  case (2 n l ls)
  obtain g rest where g: "take_logical_line l ls = (g, rest)"
    by (cases "take_logical_line l ls")
  note whole = take_logical_line_set [OF g]
  from whole "2.prems" have free_g: "\<forall>x \<in> set g. CHR 0x0A \<notin> set x"
    and free_rest: "\<forall>x \<in> set rest. CHR 0x0A \<notin> set x"
    by (metis Un_iff set_append)+
  have ne: "g \<noteq> []"
    using g by (rule take_logical_line_nonempty)
  note count = count_newlines_join [OF free_g ne]
  let ?n' = "n + int (length g)"
  let ?xs = "logical_lines ?n' rest"
  note ih = "2.IH" [OF g [symmetric] free_rest]
  have xs: "logical_lines n (l # ls) = (n, join_lines g) # ?xs"
    using g by simp
  have step: "fst (((n, join_lines g) # ?xs) ! Suc i) =
      fst (((n, join_lines g) # ?xs) ! i) + 1 +
        int (count_list (snd (((n, join_lines g) # ?xs) ! i)) (CHR 0x0A))"
    if "Suc i < length ((n, join_lines g) # ?xs)" for i
  proof (cases i)
    case 0
    with that have "?xs \<noteq> []" by auto
    then have "rest \<noteq> []" by auto
    with ih have "fst (hd ?xs) = ?n'" by simp
    with \<open>?xs \<noteq> []\<close> have "fst (?xs ! 0) = ?n'"
      by (simp add: hd_conv_nth)
    with 0 count show ?thesis by simp
  next
    case (Suc j)
    with that ih show ?thesis by simp
  qed
  have joined: "snd x = join_lines (take (Suc (count_list (snd x) (CHR 0x0A)))
      (drop (nat (fst x - n)) (l # ls)))"
    if "x \<in> set ((n, join_lines g) # ?xs)" for x
  proof (cases "x = (n, join_lines g)")
    case True
    with count whole [symmetric] show ?thesis by simp
  next
    case False
    with that have mem: "x \<in> set ?xs" by simp
    with logical_lines_increasing [of ?n' rest] have "?n' \<le> fst x" by blast
    then have "nat (fst x - n) = length g + nat (fst x - ?n')"
      by simp
    then have "drop (nat (fst x - n)) (l # ls) = drop (nat (fst x - ?n')) rest"
      unfolding whole [symmetric] by simp
    with ih mem show ?thesis by simp
  qed
  from step joined show ?case
    unfolding xs by simp
qed

lemma deref_top:
  assumes "build_inv m st" and "length (stateStack st) = Suc k"
  shows "deref (conditionals st) (last (stateStack st)) = Some (open_at k (last (conditionals st)))"
proof -
  note top = build_inv_open [OF assms]
  have "last (stateStack st) = (length (conditionals st) - 1, open_path k (last (conditionals st)))"
    by (simp add: top(1) open_stack_Suc)
  with deref_open [OF top(2,5)] show ?thesis by simp
qed

lemma on_if_records:
  assumes "build_inv n st"
  shows "\<exists>st'. on_if st n t = Inr st' \<and>
           deref (conditionals st') (last (stateStack st')) = Some (opened_at n t)"
proof (cases "length (stateStack st)")
  case 0
  then have "stateStack st = []" by simp
  then show ?thesis
    by (simp add: on_if_top_level open_stack_def deref_def)
next
  case (Suc k)
  note top = build_inv_open [OF assms Suc]
  let ?cs' = "butlast (conditionals st) @
      [update_open k (nest_update (opened_at n t)) (last (conditionals st))]"
  let ?st' = "\<lparr>conditionals = ?cs', stateStack = open_stack (Suc (Suc k)) ?cs'\<rparr>"
  have eq: "on_if st n t = Inr ?st'"
    using top(1,2,5,6) by (rule on_if_nested)
  from build_inv_on_if [OF assms, of t] obtain st1
    where "on_if st n t = Inr st1" and inv1: "build_inv (n + 1) st1"
    by blast
  with eq have "st1 = ?st'"
    by (simp only: sum.inject)
  with inv1 have inv': "build_inv (n + 1) ?st'"
    by (simp only:)
  have "open_at (Suc k) (last ?cs') = opened_at n t"
    unfolding open_at_Suc using top(5,6)
    by (simp add: open_at_update_open nest_update_simps)
  with deref_top [OF inv', of "Suc k"] eq show ?thesis
    by simp
qed

lemma on_else_records:
  assumes "build_inv n st" and "stateStack st \<noteq> []"
  shows "\<exists>st' cond. on_else st n t = Inr st' \<and>
           deref (conditionals st') (last (stateStack st')) = Some cond \<and>
           last (blocks cond) = Conditional_Block n 0 t []"
proof -
  from assms(2) obtain k where k: "length (stateStack st) = Suc k"
    by (cases "stateStack st") auto
  note top = build_inv_open [OF assms(1) k]
  let ?cs' = "butlast (conditionals st) @
      [update_open k (else_update n t) (last (conditionals st))]"
  have eq: "on_else st n t = Inr (st\<lparr>conditionals := ?cs'\<rparr>)"
    using top(1,2,5,6) by (rule on_else_effect)
  from build_inv_on_else [OF assms, of t] obtain st1
    where "on_else st n t = Inr st1" and inv1: "build_inv (n + 1) st1"
    by blast
  with eq have "st1 = st\<lparr>conditionals := ?cs'\<rparr>"
    by (simp only: sum.inject)
  with inv1 have inv': "build_inv (n + 1) (st\<lparr>conditionals := ?cs'\<rparr>)"
    by (simp only:)
  have "open_at k (last ?cs') = else_update n t (open_at k (last (conditionals st)))"
    using top(5) by (simp add: open_at_update_open)
  moreover have "last (blocks (else_update n t c)) = Conditional_Block n 0 t []" for c
    by (simp add: else_update_def Let_def)
  ultimately show ?thesis
    using deref_top [OF inv', of k] eq k by simp
qed

section \<open>Example 1, queried at line 4\<close>

text \<open>
  C1. The input \<^verbatim>\<open>#if A\<close> (line 1), \<^verbatim>\<open>x;\<close> (2), \<^verbatim>\<open>#else\<close> (3), \<^verbatim>\<open>y;\<close> (4),
  \<^verbatim>\<open>#endif\<close> (5) builds without error, whether or not the last line ends with a
  newline, and the query for line 4 prints exactly two entries, in this order: FALSE for
  line 1 with the text \<^verbatim>\<open>#if A\<close>, then TRUE for line 3 with the text \<^verbatim>\<open>#else\<close>. A
  whole run of the program on that file with \<^verbatim>\<open>--lines 4\<close> prints the header, these two
  entries and the blank line, and exits with status 0.
\<close>

theorem example_1_line_4:
  "build example_1 = Inr example_1_forest \<and>
   build (example_1 @ [CHR 0x0A]) = Inr example_1_forest \<and>
   process_line 4 example_1_forest = [Requires False 1 ''#if A'', Requires True 3 ''#else''] \<and>
   main c_atoi (\<lambda>path. if path = ''in.c'' then Some example_1 else None)
        [''--file'', ''in.c'', ''--lines'', ''4''] =
     Inr \<lparr>exit_code = 0,
          printed_lines = [Requirements_for_line 4, Requires False 1 ''#if A'',
                           Requires True 3 ''#else'', Blank],
          opened = [''in.c'']\<rparr>"
  by code_simp

section \<open>The partition invariant\<close>

text \<open>
  C3. In a forest that the builder returns (the whole input was read and the stack was
  empty at the end), every conditional, at any depth of nesting, has at least one block;
  its first block begins at the conditional's \<^verbatim>\<open>begin_line\<close>; its last block ends at
  the conditional's \<^verbatim>\<open>end_line\<close>; each block ends at the line where the next one
  begins; and each block ends after the line where it begins. So the blocks cover the
  conditional's range without gap or overlap.
\<close>

theorem built_partition:
  assumes "build content = Inr forest" and "c \<in> set (all_conditionals forest)"
  shows "blocks c \<noteq> [] \<and>
         block_begin_line (hd (blocks c)) = begin_line c \<and>
         block_end_line (last (blocks c)) = end_line c \<and>
         (\<forall>i. Suc i < length (blocks c) \<longrightarrow>
            block_end_line (blocks c ! i) = block_begin_line (blocks c ! Suc i)) \<and>
         (\<forall>b \<in> set (blocks c). block_begin_line b < block_end_line b)"
proof -
  from build_closed [of content] assms(1)
  have "closed_forest 0 (1 + line_count content) forest"
    by auto
  from all_conditionals_closed [OF this assms(2)] have "closed_conditional c"
    by simp
  then show ?thesis
    using chain_partition [of "begin_line c" "blocks c" "end_line c"]
    by (simp add: closed_conditional_def)
qed

theorem built_partition_witness:
  "build example_1 = Inr example_1_forest \<and>
   hd example_1_forest \<in> set (all_conditionals example_1_forest) \<and>
   length (blocks (hd example_1_forest)) = 2 \<and>
   block_begin_line (hd (blocks (hd example_1_forest))) = begin_line (hd example_1_forest) \<and>
   block_end_line (last (blocks (hd example_1_forest))) = end_line (hd example_1_forest) \<and>
   block_end_line (blocks (hd example_1_forest) ! 0) =
     block_begin_line (blocks (hd example_1_forest) ! 1)"
proof -
  have b: "build example_1 = Inr example_1_forest"
    by code_simp
  have m: "hd example_1_forest \<in> set (all_conditionals example_1_forest)"
    by (simp add: example_1_forest_def)
  from built_partition [OF b m] b m show ?thesis
    by (simp add: example_1_forest_def)
qed

section \<open>A query at the line of an \<^verbatim>\<open>#endif\<close>\<close>

text \<open>
  C2. Let \<open>c\<close> be any conditional of a built forest, at any depth, and let the target line
  be its \<^verbatim>\<open>end_line\<close>, the line of its \<^verbatim>\<open>#endif\<close>. Then the conditional passes the
  inclusive test of \<^verbatim>\<open>process_line\<close>; none of its blocks passes the half-open test; the
  scan of its blocks prints one FALSE entry per block and nothing else; and the whole
  query ends with exactly these FALSE entries, so no nested conditional is visited. What
  the query prints before them belongs to enclosing levels: those entries carry line
  numbers below the conditional's \<^verbatim>\<open>begin_line\<close>.
\<close>

theorem query_at_end_line:
  assumes "build content = Inr forest" and "c \<in> set (all_conditionals forest)"
    and "line = end_line c"
  shows "(begin_line c \<le> line \<and> end_line c \<ge> line) \<and>
         (\<forall>b \<in> set (blocks c). \<not> (block_begin_line b \<le> line \<and> block_end_line b > line)) \<and>
         process_blocks line (blocks c) = false_entries (blocks c) \<and>
         (\<exists>pre. process_line line forest = pre @ false_entries (blocks c) \<and>
                (\<forall>x \<in> set pre. entry_line x < begin_line c))"
proof -
  note closed = built_closed [OF assms(1)]
  from all_conditionals_closed [OF closed assms(2)] have ne: "blocks c \<noteq> []"
    and ch: "chain (begin_line c) (blocks c) (end_line c)"
    by (simp_all add: closed_conditional_def)
  from chain_less [OF ne ch] assms(3) have range: "begin_line c \<le> line" "line \<le> end_line c"
    by simp_all
  from process_blocks_past_end [OF ch, of line] assms(3)
  have scan: "process_blocks line (blocks c) = false_entries (blocks c)"
    and none: "\<forall>b \<in> set (blocks c). \<not> (block_begin_line b \<le> line \<and> block_end_line b > line)"
    by simp_all
  from process_line_reaches [OF closed assms(2) range] scan
  have "\<exists>pre. process_line line forest = pre @ false_entries (blocks c) \<and>
          (\<forall>x \<in> set pre. entry_line x < begin_line c)"
    by simp
  with range scan none show ?thesis by simp
qed

theorem query_at_end_line_witness:
  "build example_2 = Inr example_2_forest \<and>
   example_2_inner \<in> set (all_conditionals example_2_forest) \<and>
   end_line example_2_inner = 3 \<and>
   process_blocks 3 (blocks example_2_inner) = [Requires False 2 ''#if B''] \<and>
   process_line 3 example_2_forest = [Requires True 1 ''#if A'', Requires False 2 ''#if B'']"
proof -
  have b: "build example_2 = Inr example_2_forest"
    by code_simp
  have m: "example_2_inner \<in> set (all_conditionals example_2_forest)"
    by (simp add: example_2_forest_def example_2_inner_def)
  have l: "end_line example_2_inner = 3"
    by (simp add: example_2_inner_def)
  have "process_line 3 example_2_forest = [Requires True 1 ''#if A'', Requires False 2 ''#if B'']"
    by code_simp
  with query_at_end_line [OF b m l [symmetric]] b m l show ?thesis
    by (simp add: example_2_inner_def false_entries_def c_str_def)
qed

section \<open>Mutual exclusivity of the blocks of a conditional\<close>

text \<open>
  C4. Let \<open>c\<close> be any conditional of a built forest, at any depth, and let the target line
  lie in its inclusive range. Then the query reaches \<open>c\<close>: its output is some entries of
  enclosing levels (with line numbers below \<open>c\<close>'s \<^verbatim>\<open>begin_line\<close>) followed by the scan
  of \<open>c\<close>'s blocks. If the line is \<open>c\<close>'s \<^verbatim>\<open>end_line\<close>, the scan prints a FALSE entry for
  every block and no TRUE entry. Otherwise exactly one block \<open>b\<close> contains the line: the
  scan prints a FALSE entry for every block before \<open>b\<close>, then the TRUE entry of \<open>b\<close>, then
  the query of the conditionals nested in \<open>b\<close>. The entries of that nested query carry
  line numbers strictly inside \<open>b\<close>'s range, none of them the line of a block of \<open>c\<close>, so
  \<open>b\<close>'s is the only TRUE entry for a block of \<open>c\<close>; and every entry of the whole trace
  carries a line number below the line of each block after \<open>b\<close>, so no block after \<open>b\<close>
  is printed.
\<close>

theorem query_mutual_exclusivity:
  assumes "build content = Inr forest" and "c \<in> set (all_conditionals forest)"
    and "begin_line c \<le> line" and "line \<le> end_line c"
  shows "(\<exists>outer. process_line line forest = outer @ process_blocks line (blocks c) \<and>
            (\<forall>x \<in> set outer. entry_line x < begin_line c)) \<and>
         (line = end_line c \<longrightarrow> process_blocks line (blocks c) = false_entries (blocks c)) \<and>
         (line < end_line c \<longrightarrow>
            (\<exists>pre b post.
               blocks c = pre @ b # post \<and>
               block_begin_line b \<le> line \<and> line < block_end_line b \<and>
               process_blocks line (blocks c) =
                 false_entries pre @ Requires True (block_begin_line b) (c_str (condition b))
                   # process_line line (nested_conditionals b) \<and>
               (\<forall>x \<in> set (process_line line (nested_conditionals b)).
                  block_begin_line b < entry_line x \<and> entry_line x < block_end_line b) \<and>
               (\<forall>x \<in> set (process_line line (nested_conditionals b)).
                  \<forall>y \<in> set (blocks c). entry_line x \<noteq> block_begin_line y) \<and>
               (\<forall>y \<in> set post. \<forall>x \<in> set (process_line line forest).
                  entry_line x < block_begin_line y)))"
proof -
  note closed = built_closed [OF assms(1)]
  from all_conditionals_closed [OF closed assms(2)] have ne: "blocks c \<noteq> []"
    and ch: "chain (begin_line c) (blocks c) (end_line c)"
    by (simp_all add: closed_conditional_def)
  from process_line_reaches [OF closed assms(2,3,4)] obtain outer
    where outer: "process_line line forest = outer @ process_blocks line (blocks c)"
      and outer_lines: "\<forall>x \<in> set outer. entry_line x < begin_line c"
    by blast
  have at_end: "process_blocks line (blocks c) = false_entries (blocks c)" if "line = end_line c"
    using process_blocks_past_end [OF ch, of line] that by simp
  have inside: "\<exists>pre b post.
       blocks c = pre @ b # post \<and>
       block_begin_line b \<le> line \<and> line < block_end_line b \<and>
       process_blocks line (blocks c) =
         false_entries pre @ Requires True (block_begin_line b) (c_str (condition b))
           # process_line line (nested_conditionals b) \<and>
       (\<forall>x \<in> set (process_line line (nested_conditionals b)).
          block_begin_line b < entry_line x \<and> entry_line x < block_end_line b) \<and>
       (\<forall>x \<in> set (process_line line (nested_conditionals b)).
          \<forall>y \<in> set (blocks c). entry_line x \<noteq> block_begin_line y) \<and>
       (\<forall>y \<in> set post. \<forall>x \<in> set (process_line line forest).
          entry_line x < block_begin_line y)" if "line < end_line c"
  proof -
    from process_blocks_inside [OF ch assms(3) that] obtain pre b post
      where split: "blocks c = pre @ b # post"
        and range: "block_begin_line b \<le> line" "line < block_end_line b"
        and post: "chain (block_end_line b) post (end_line c)"
        and scan: "process_blocks line (blocks c) =
          false_entries pre @ Requires True (block_begin_line b) (c_str (condition b))
            # process_line line (nested_conditionals b)"
      by blast
    have mem: "b \<in> set (blocks c)"
      using split by simp
    from chain_block_closed [OF ch mem]
    have nested: "closed_forest (block_begin_line b) (block_end_line b) (nested_conditionals b)" .
    from closed_forest_less [OF nested] have lt: "block_begin_line b < block_end_line b" .
    from chain_bounds [OF ch mem] have low: "begin_line c \<le> block_begin_line b"
      by simp
    have inner: "\<forall>x \<in> set (process_line line (nested_conditionals b)).
        block_begin_line b < entry_line x \<and> entry_line x < block_end_line b"
      using nested by (auto dest: process_line_entries)
    have later: "\<forall>y \<in> set post. block_end_line b \<le> block_begin_line y"
      using chain_bounds [OF post] by auto
    have earlier: "\<forall>y \<in> set pre. block_begin_line y < block_begin_line b"
      using chain_before [OF ch [unfolded split]] by blast
    have other: "entry_line x \<noteq> block_begin_line y"
      if "x \<in> set (process_line line (nested_conditionals b))" and "y \<in> set (blocks c)" for x y
    proof -
      from that(2) split consider "y \<in> set pre" | "y = b" | "y \<in> set post"
        by auto
      then show ?thesis
        using inner earlier later that(1) by cases fastforce+
    qed
    have whole: "entry_line x < block_begin_line y"
      if "y \<in> set post" and "x \<in> set (process_line line forest)" for x y
    proof -
      from that(1) later have y: "block_end_line b \<le> block_begin_line y"
        by blast
      from that(2) consider "x \<in> set outer" | "x \<in> set (false_entries pre)"
        | "x = Requires True (block_begin_line b) (c_str (condition b))"
        | "x \<in> set (process_line line (nested_conditionals b))"
        unfolding outer scan by auto
      then show ?thesis
      proof cases
        case 1
        with outer_lines low lt y show ?thesis by fastforce
      next
        case 2
        then obtain z where "z \<in> set pre" and "entry_line x = block_begin_line z"
          by (auto simp: false_entries_def)
        with earlier lt y show ?thesis by fastforce
      next
        case 3
        with lt y show ?thesis by simp
      next
        case 4
        with inner y show ?thesis by fastforce
      qed
    qed
    from split range scan inner other whole show ?thesis by blast
  qed
  from outer outer_lines at_end inside show ?thesis by blast
qed

theorem query_mutual_exclusivity_witness:
  "build example_1 = Inr example_1_forest \<and>
   hd example_1_forest \<in> set (all_conditionals example_1_forest) \<and>
   begin_line (hd example_1_forest) \<le> 4 \<and> 4 < end_line (hd example_1_forest) \<and>
   process_line 4 example_1_forest = [Requires False 1 ''#if A'', Requires True 3 ''#else'']"
proof -
  have b: "build example_1 = Inr example_1_forest"
    by code_simp
  have m: "hd example_1_forest \<in> set (all_conditionals example_1_forest)"
    by (simp add: example_1_forest_def)
  have r: "begin_line (hd example_1_forest) \<le> 4" "4 \<le> end_line (hd example_1_forest)"
    by (simp_all add: example_1_forest_def)
  have "process_line 4 example_1_forest = [Requires False 1 ''#if A'', Requires True 3 ''#else'']"
    by code_simp
  with query_mutual_exclusivity [OF b m r] b m show ?thesis
    by (simp add: example_1_forest_def)
qed

section \<open>Target lines outside every conditional\<close>

text \<open>
  C9. Take any run in which the arguments parse to a path and at least one line number,
  the file opens and the build succeeds. The run exits with status 0 and prints, for each
  requested line, the header, the trace and the blank line; no requested line is rejected.
  For a target line outside the inclusive range of every top-level conditional the trace is
  empty. Every line number greater than the number of lines of the file is such a line.
\<close>

theorem line_outside_every_conditional:
  assumes "parse_args atoi [] [] args = Inr (path, lines)" and "path \<noteq> []" and "lines \<noteq> []"
    and "fs path = Some content" and "build content = Inr forest"
  shows "main atoi fs args =
           Inr \<lparr>exit_code = 0,
                printed_lines =
                  concat (map (\<lambda>line. Requirements_for_line line # process_line line forest @ [Blank]) lines),
                opened = [path]\<rparr> \<and>
         ((\<forall>c \<in> set forest. \<not> (begin_line c \<le> line \<and> end_line c \<ge> line)) \<longrightarrow>
            process_line line forest = []) \<and>
         (line_count content < line \<longrightarrow>
            (\<forall>c \<in> set forest. \<not> (begin_line c \<le> line \<and> end_line c \<ge> line)) \<and>
            process_line line forest = [])"
proof -
  have run: "main atoi fs args =
      Inr \<lparr>exit_code = 0,
           printed_lines =
             concat (map (\<lambda>line. Requirements_for_line line # process_line line forest @ [Blank]) lines),
           opened = [path]\<rparr>"
    using main_after_parse [of atoi args path lines fs content] assms by simp
  have outside: "process_line line forest = []"
    if "\<forall>c \<in> set forest. \<not> (begin_line c \<le> line \<and> end_line c \<ge> line)"
    using that by (rule process_line_outside)
  have beyond: "\<forall>c \<in> set forest. \<not> (begin_line c \<le> line \<and> end_line c \<ge> line)"
    if "line_count content < line"
  proof
    fix c assume "c \<in> set forest"
    from closed_forest_top_level [OF built_closed [OF assms(5)] this] that
    show "\<not> (begin_line c \<le> line \<and> end_line c \<ge> line)"
      by simp
  qed
  from run outside beyond show ?thesis by blast
qed


theorem line_outside_every_conditional_witness:
  "parse_args c_atoi [] [] [''--file'', ''in.c'', ''--lines'', ''6'', ''99''] = Inr (''in.c'', [6, 99]) \<and>
   build (example_1 @ [CHR 0x0A]) = Inr example_1_forest \<and>
   line_count (example_1 @ [CHR 0x0A]) = 5 \<and>
   main c_atoi (\<lambda>path. if path = ''in.c'' then Some (example_1 @ [CHR 0x0A]) else None)
        [''--file'', ''in.c'', ''--lines'', ''6'', ''99''] =
     Inr \<lparr>exit_code = 0,
          printed_lines = [Requirements_for_line 6, Blank, Requirements_for_line 99, Blank],
          opened = [''in.c'']\<rparr>"
proof -
  let ?fs = "\<lambda>path. if path = ''in.c'' then Some (example_1 @ [CHR 0x0A]) else None"
  let ?args = "[''--file'', ''in.c'', ''--lines'', ''6'', ''99'']"
  have p: "parse_args c_atoi [] [] ?args = Inr (''in.c'', [6, 99])"
    by code_simp
  have b: "build (example_1 @ [CHR 0x0A]) = Inr example_1_forest"
    by code_simp
  have n: "line_count (example_1 @ [CHR 0x0A]) = 5"
    by code_simp
  have f: "?fs ''in.c'' = Some (example_1 @ [CHR 0x0A])"
    by simp
  have ne: "''in.c'' \<noteq> []" "[6, 99 :: int] \<noteq> []"
    by simp_all
  from line_outside_every_conditional [of c_atoi ?args "''in.c''" "[6, 99]" ?fs
      "example_1 @ [CHR 0x0A]" example_1_forest 6, OF p ne f b]
    line_outside_every_conditional [of c_atoi ?args "''in.c''" "[6, 99]" ?fs
      "example_1 @ [CHR 0x0A]" example_1_forest 99, OF p ne f b]
    p b n
  show ?thesis by simp
qed

section \<open>Structural directive errors\<close>

text \<open>
  C5. Take any run in which the arguments parse to a path and at least one line number and
  the file opens. If the file has a logical line whose directive is \<^verbatim>\<open>else\<close> or
  \<^verbatim>\<open>elif\<close> and the lines before it leave no conditional open, the build stops with the
  message for an unmatched else, whatever follows in the file. Likewise for \<^verbatim>\<open>endif\<close>
  with no conditional open. If the whole file is read and a conditional is still open, the
  build stops with the message for an unterminated conditional. In each case, and for every
  fatal message of the build, the program prints only that message, runs no query, and
  returns \<open>-1\<close>, which is neither 0 nor 1 (as an 8-bit exit status it is 255).
\<close>

theorem structural_errors_are_fatal:
  assumes "parse_args atoi [] [] args = Inr (path, lines)" and "path \<noteq> []" and "lines \<noteq> []"
    and "fs path = Some content"
  shows
    "(logical_lines 1 (physical_lines content) = pre @ (n, cur) # post \<and>
      run_lines pre \<lparr>conditionals = [], stateStack = []\<rparr> = Inr st \<and> stateStack st = [] \<and>
      directive cur = Some d \<and> (d = ''else'' \<or> d = ''elif'') \<longrightarrow>
        build content = Inl (Fatal Encountered_else_outside_of_a_conditional)) \<and>
     (logical_lines 1 (physical_lines content) = pre @ (n, cur) # post \<and>
      run_lines pre \<lparr>conditionals = [], stateStack = []\<rparr> = Inr st \<and> stateStack st = [] \<and>
      directive cur = Some ''endif'' \<longrightarrow>
        build content = Inl (Fatal Encountered_endif_with_no_matching_conditional)) \<and>
     (run_lines (logical_lines 1 (physical_lines content)) \<lparr>conditionals = [], stateStack = []\<rparr> = Inr st' \<and>
      stateStack st' \<noteq> [] \<longrightarrow>
        build content = Inl (Fatal Reached_end_of_file_with_an_active_conditional_block)) \<and>
     (build content = Inl (Fatal msg) \<longrightarrow>
        main atoi fs args = Inr \<lparr>exit_code = - 1, printed_lines = [Error msg], opened = [path]\<rparr> \<and>
        (- 1 :: int) \<noteq> 0 \<and> (- 1 :: int) \<noteq> 1 \<and> (- 1 :: int) mod 256 = 255)"
proof -
  let ?init = "\<lparr>conditionals = [], stateStack = []\<rparr>"
  have unmatched_else: "build content = Inl (Fatal Encountered_else_outside_of_a_conditional)"
    if "logical_lines 1 (physical_lines content) = pre @ (n, cur) # post"
      and "run_lines pre ?init = Inr st" and "stateStack st = []"
      and "directive cur = Some d" and "d = ''else'' \<or> d = ''elif''"
  proof -
    from that(3,4,5) have "process_logical_line st n cur =
        Inl (Fatal Encountered_else_outside_of_a_conditional)"
      by (auto simp: process_logical_line_def on_else_def)
    with that(1,2) show ?thesis
      by (simp add: build_run_lines run_lines_append)
  qed
  have unmatched_endif: "build content = Inl (Fatal Encountered_endif_with_no_matching_conditional)"
    if "logical_lines 1 (physical_lines content) = pre @ (n, cur) # post"
      and "run_lines pre ?init = Inr st" and "stateStack st = []"
      and "directive cur = Some ''endif''"
  proof -
    from that(3,4) have "process_logical_line st n cur =
        Inl (Fatal Encountered_endif_with_no_matching_conditional)"
      by (simp add: process_logical_line_def on_endif_def)
    with that(1,2) show ?thesis
      by (simp add: build_run_lines run_lines_append)
  qed
  have unterminated: "build content = Inl (Fatal Reached_end_of_file_with_an_active_conditional_block)"
    if "run_lines (logical_lines 1 (physical_lines content)) ?init = Inr st'"
      and "stateStack st' \<noteq> []"
    using that by (simp add: build_run_lines)
  have exit: "main atoi fs args = Inr \<lparr>exit_code = - 1, printed_lines = [Error msg], opened = [path]\<rparr>"
    if "build content = Inl (Fatal msg)"
    using main_after_parse [of atoi args path lines fs content] assms that by simp
  from unmatched_else unmatched_endif unterminated exit show ?thesis
    by simp
qed

theorem structural_errors_are_fatal_witness:
  "build ''#else'' = Inl (Fatal Encountered_else_outside_of_a_conditional) \<and>
   main c_atoi (\<lambda>path. Some ''#else'') [''--file'', ''a.c'', ''--lines'', ''1''] =
     Inr \<lparr>exit_code = - 1, printed_lines = [Error Encountered_else_outside_of_a_conditional],
          opened = [''a.c'']\<rparr> \<and>
   build ''#endif'' = Inl (Fatal Encountered_endif_with_no_matching_conditional) \<and>
   main c_atoi (\<lambda>path. Some ''#endif'') [''--file'', ''a.c'', ''--lines'', ''1''] =
     Inr \<lparr>exit_code = - 1, printed_lines = [Error Encountered_endif_with_no_matching_conditional],
          opened = [''a.c'']\<rparr> \<and>
   build ''#if A'' = Inl (Fatal Reached_end_of_file_with_an_active_conditional_block) \<and>
   main c_atoi (\<lambda>path. Some ''#if A'') [''--file'', ''a.c'', ''--lines'', ''1''] =
     Inr \<lparr>exit_code = - 1,
          printed_lines = [Error Reached_end_of_file_with_an_active_conditional_block],
          opened = [''a.c'']\<rparr>"
proof -
  let ?args = "[''--file'', ''a.c'', ''--lines'', ''1'']"
  let ?init = "\<lparr>conditionals = [], stateStack = []\<rparr>"
  let ?open = "\<lparr>conditionals = [Conditional 1 0 [Conditional_Block 1 0 ''#if A'' []]],
                stateStack = [(0, [])]\<rparr>"
  have p: "parse_args c_atoi [] [] ?args = Inr (''a.c'', [1])"
    by code_simp
  have ne: "''a.c'' \<noteq> []" "[1 :: int] \<noteq> []"
    by simp_all
  have r: "run_lines [] ?init = Inr ?init" "stateStack ?init = []"
    by simp_all
  have l1: "logical_lines 1 (physical_lines ''#else'') = [] @ (1, ''#else'') # []"
    and d1: "directive ''#else'' = Some ''else''"
    and l2: "logical_lines 1 (physical_lines ''#endif'') = [] @ (1, ''#endif'') # []"
    and d2: "directive ''#endif'' = Some ''endif''"
    and r3: "run_lines (logical_lines 1 (physical_lines ''#if A'')) ?init = Inr ?open"
    by code_simp+
  have s3: "stateStack ?open \<noteq> []"
    by simp
  note t1 = structural_errors_are_fatal [where atoi = c_atoi and args = ?args and path = "''a.c''"
      and lines = "[1]" and fs = "\<lambda>path. Some ''#else''" and content = "''#else''" and pre = "[]"
      and n = 1 and cur = "''#else''" and post = "[]" and st = ?init and d = "''else''"
      and msg = Encountered_else_outside_of_a_conditional, OF p ne refl]
  note t2 = structural_errors_are_fatal [where atoi = c_atoi and args = ?args and path = "''a.c''"
      and lines = "[1]" and fs = "\<lambda>path. Some ''#endif''" and content = "''#endif''" and pre = "[]"
      and n = 1 and cur = "''#endif''" and post = "[]" and st = ?init
      and msg = Encountered_endif_with_no_matching_conditional, OF p ne refl]
  note t3 = structural_errors_are_fatal [where atoi = c_atoi and args = ?args and path = "''a.c''"
      and lines = "[1]" and fs = "\<lambda>path. Some ''#if A''" and content = "''#if A''" and st' = ?open
      and msg = Reached_end_of_file_with_an_active_conditional_block, OF p ne refl]
  have b1: "build ''#else'' = Inl (Fatal Encountered_else_outside_of_a_conditional)"
    by (rule t1 [THEN conjunct1, THEN mp]) (intro conjI l1 r d1 disjI1 refl)
  have b2: "build ''#endif'' = Inl (Fatal Encountered_endif_with_no_matching_conditional)"
    by (rule t2 [THEN conjunct2, THEN conjunct1, THEN mp]) (intro conjI l2 r d2)
  have b3: "build ''#if A'' = Inl (Fatal Reached_end_of_file_with_an_active_conditional_block)"
    by (rule t3 [THEN conjunct2, THEN conjunct2, THEN conjunct1, THEN mp]) (intro conjI r3 s3)
  note m1 = t1 [THEN conjunct2, THEN conjunct2, THEN conjunct2, THEN mp, OF b1, THEN conjunct1]
  note m2 = t2 [THEN conjunct2, THEN conjunct2, THEN conjunct2, THEN mp, OF b2, THEN conjunct1]
  note m3 = t3 [THEN conjunct2, THEN conjunct2, THEN conjunct2, THEN mp, OF b3, THEN conjunct1]
  show ?thesis
    by (intro conjI b1 m1 b2 m2 b3 m3)
qed

section \<open>No constraint on the order of branches\<close>

text \<open>
  C10. Take a logical line of a file whose directive is \<^verbatim>\<open>else\<close> or \<^verbatim>\<open>elif\<close>, reached
  with some conditional open. Whatever blocks that conditional already has (an
  \<^verbatim>\<open>else\<close> before an \<^verbatim>\<open>elif\<close>, or several \<^verbatim>\<open>else\<close>), the line is accepted: the
  loop body returns a state and no failure, and the only change is that the conditional
  on top of the stack has its last block closed at this line and a new block appended
  that begins at this line and carries the line's text.
\<close>

theorem else_in_any_order_accepted:
  assumes "logical_lines 1 (physical_lines content) = pre @ (n, cur) # post"
    and "run_lines pre \<lparr>conditionals = [], stateStack = []\<rparr> = Inr st"
    and "stateStack st \<noteq> []"
    and "directive cur = Some d" and "d = ''else'' \<or> d = ''elif''"
  shows "\<exists>cond. deref (conditionals st) (last (stateStack st)) = Some cond \<and>
           blocks cond \<noteq> [] \<and>
           process_logical_line st n cur =
             Inr (st\<lparr>conditionals :=
                       store (conditionals st) (last (stateStack st)) (else_update n cur cond)\<rparr>)"
proof -
  note inv = run_prefix_inv [OF assms(1,2)]
  from assms(3) obtain k where k: "length (stateStack st) = Suc k"
    by (cases "stateStack st") auto
  note top = build_inv_open [OF inv k]
  let ?cs = "conditionals st"
  let ?cond = "open_at k (last ?cs)"
  have p: "last (stateStack st) = (length ?cs - 1, open_path k (last ?cs))"
    by (simp add: top(1) open_stack_Suc)
  have d: "deref ?cs (last (stateStack st)) = Some ?cond"
    unfolding p using top(2,5) by (rule deref_open)
  have "process_logical_line st n cur = on_else st n cur"
    using assms(4,5) by (auto simp: process_logical_line_def)
  also have "\<dots> = Inr (st\<lparr>conditionals := store ?cs (last (stateStack st)) (else_update n cur ?cond)\<rparr>)"
    using assms(3) d top(6)
    by (simp add: on_else_def Let_def else_update_def list_update_last_1 nth_last_1 del: One_nat_def)
  finally show ?thesis
    using d top(6) by blast
qed

theorem else_in_any_order_accepted_witness:
  "logical_lines 1 (physical_lines example_3) =
     [(1, ''#if A''), (2, ''#else'')] @ (3, ''#elif B'') # [(4, ''#else''), (5, ''#endif'')] \<and>
   run_lines [(1, ''#if A''), (2, ''#else'')] \<lparr>conditionals = [], stateStack = []\<rparr> =
     Inr \<lparr>conditionals = [Conditional 1 0 [Conditional_Block 1 2 ''#if A'' [],
                                               Conditional_Block 2 0 ''#else'' []]],
          stateStack = [(0, [])]\<rparr> \<and>
   process_logical_line
     \<lparr>conditionals = [Conditional 1 0 [Conditional_Block 1 2 ''#if A'' [],
                                        Conditional_Block 2 0 ''#else'' []]],
      stateStack = [(0, [])]\<rparr> 3 ''#elif B'' =
     Inr \<lparr>conditionals = [Conditional 1 0 [Conditional_Block 1 2 ''#if A'' [],
                                               Conditional_Block 2 3 ''#else'' [],
                                               Conditional_Block 3 0 ''#elif B'' []]],
          stateStack = [(0, [])]\<rparr> \<and>
   build example_3 =
     Inr [Conditional 1 5 [Conditional_Block 1 2 ''#if A'' [], Conditional_Block 2 3 ''#else'' [],
                           Conditional_Block 3 4 ''#elif B'' [], Conditional_Block 4 5 ''#else'' []]]"
proof -
  let ?st = "\<lparr>conditionals = [Conditional 1 0 [Conditional_Block 1 2 ''#if A'' [],
                                                   Conditional_Block 2 0 ''#else'' []]],
              stateStack = [(0, [])]\<rparr>"
  have l: "logical_lines 1 (physical_lines example_3) =
      [(1, ''#if A''), (2, ''#else'')] @ (3, ''#elif B'') # [(4, ''#else''), (5, ''#endif'')]"
    by code_simp
  have r: "run_lines [(1, ''#if A''), (2, ''#else'')] \<lparr>conditionals = [], stateStack = []\<rparr> = Inr ?st"
    by code_simp
  have s: "stateStack ?st \<noteq> []"
    by simp
  have d: "directive ''#elif B'' = Some ''elif''"
    by code_simp
  have b: "build example_3 =
     Inr [Conditional 1 5 [Conditional_Block 1 2 ''#if A'' [], Conditional_Block 2 3 ''#else'' [],
                           Conditional_Block 3 4 ''#elif B'' [], Conditional_Block 4 5 ''#else'' []]]"
    by code_simp
  from else_in_any_order_accepted [OF l r s d] obtain cond
    where c: "deref (conditionals ?st) (last (stateStack ?st)) = Some cond"
      and p: "process_logical_line ?st 3 ''#elif B'' =
        Inr (?st\<lparr>conditionals :=
               store (conditionals ?st) (last (stateStack ?st)) (else_update 3 ''#elif B'' cond)\<rparr>)"
    by auto
  from c have "cond = Conditional 1 0 [Conditional_Block 1 2 ''#if A'' [],
                                        Conditional_Block 2 0 ''#else'' []]"
    by (simp add: deref_def)
  with p have "process_logical_line ?st 3 ''#elif B'' =
     Inr \<lparr>conditionals = [Conditional 1 0 [Conditional_Block 1 2 ''#if A'' [],
                                               Conditional_Block 2 3 ''#else'' [],
                                               Conditional_Block 3 0 ''#elif B'' []]],
          stateStack = [(0, [])]\<rparr>"
    by (simp add: store_def else_update_def)
  with l r b show ?thesis
    by (simp only: simp_thms)
qed

section \<open>The \<^verbatim>\<open>--help\<close> flag\<close>

text \<open>
  C8. The claim as stated, that every argument list containing \<^verbatim>\<open>--help\<close> makes the
  program print the usage text and exit with status 0 without opening a file, does not
  hold: the arguments are handled from left to right, \<^verbatim>\<open>--file\<close> takes the argument
  after it as the path whatever it is, and an argument error ends the run before a later
  \<^verbatim>\<open>--help\<close> is seen. With the arguments \<^verbatim>\<open>--file --help --lines 1\<close> the program
  tries to open a file named \<^verbatim>\<open>--help\<close> and exits with status 1; with
  \<^verbatim>\<open>--bogus --help\<close> it reports the unrecognized argument and exits with status 1.
\<close>

theorem help_not_reached:
  "''--help'' \<in> set [''--file'', ''--help'', ''--lines'', ''1''] \<and>
   main c_atoi (\<lambda>path. None) [''--file'', ''--help'', ''--lines'', ''1''] =
     Inr \<lparr>exit_code = 1, printed_lines = [Error (Failed_to_open_file ''--help'')],
          opened = [''--help'']\<rparr> \<and>
   ''--help'' \<in> set [''--bogus'', ''--help''] \<and>
   main c_atoi (\<lambda>path. None) [''--bogus'', ''--help''] =
     Inr \<lparr>exit_code = 1, printed_lines = [Error (Unrecognized_argument ''--bogus''), Usage],
          opened = []\<rparr>"
  by code_simp

text \<open>
  C8, amended. If the arguments before a \<^verbatim>\<open>--help\<close> are consumed without error (the
  argument loop, run on them alone, reaches their end), then the program prints the usage
  text and nothing else, exits with status 0 and opens no file, whatever follows the
  \<^verbatim>\<open>--help\<close>.
\<close>

theorem help_reached:
  assumes "parse_args atoi [] [] pre = Inr (filePath, lines)"
  shows "main atoi fs (pre @ ''--help'' # rest) =
           Inr \<lparr>exit_code = 0, printed_lines = [Usage], opened = []\<rparr>"
  using parse_args_before_help [OF assms, of rest] by (simp add: main_def)

theorem help_reached_witness:
  "parse_args c_atoi [] [] [''--lines'', ''4'', ''--file'', ''in.c''] = Inr (''in.c'', [4]) \<and>
   main c_atoi (\<lambda>path. Some example_1) [''--lines'', ''4'', ''--file'', ''in.c'', ''--help'', ''--bogus''] =
     Inr \<lparr>exit_code = 0, printed_lines = [Usage], opened = []\<rparr>"
proof -
  have p: "parse_args c_atoi [] [] [''--lines'', ''4'', ''--file'', ''in.c''] = Inr (''in.c'', [4])"
    by code_simp
  from help_reached [OF p, of "\<lambda>path. Some example_1" "[''--bogus'']"] p show ?thesis
    by simp
qed

section \<open>Directive classification\<close>

text \<open>
  C6. For every line the keyword that the code extracts is the one the specification
  describes: leading spaces, tabs and vertical tabs are skipped; a blank line or a line
  whose first other character is not \<^verbatim>\<open>#\<close> has no keyword; after the \<^verbatim>\<open>#\<close> and the
  blanks that follow it, the keyword is the longest run of letters, and a \<^verbatim>\<open>#\<close> with
  nothing but blanks after it has no keyword. The keyword is compared as it is, case
  included: \<^verbatim>\<open>if\<close>, \<^verbatim>\<open>ifdef\<close>, \<^verbatim>\<open>ifndef\<close> open a conditional, \<^verbatim>\<open>else\<close> and
  \<^verbatim>\<open>elif\<close> start a new block, \<^verbatim>\<open>endif\<close> closes the conditional. A line without a
  keyword, and a line with any other keyword (the empty one included), leaves the
  builder's state as it is.
\<close>

theorem directive_classification:
  "directive line = keyword_of line \<and>
   (keyword_of line = None \<longrightarrow> process_logical_line st n line = Inr st) \<and>
   (keyword_of line = Some k \<and> (k = ''if'' \<or> k = ''ifdef'' \<or> k = ''ifndef'') \<longrightarrow>
      process_logical_line st n line = on_if st n line) \<and>
   (keyword_of line = Some k \<and> (k = ''else'' \<or> k = ''elif'') \<longrightarrow>
      process_logical_line st n line = on_else st n line) \<and>
   (keyword_of line = Some k \<and> k = ''endif'' \<longrightarrow>
      process_logical_line st n line = on_endif st n) \<and>
   (keyword_of line = Some k \<and> k \<noteq> ''if'' \<and> k \<noteq> ''ifdef'' \<and> k \<noteq> ''ifndef'' \<and>
      k \<noteq> ''else'' \<and> k \<noteq> ''elif'' \<and> k \<noteq> ''endif'' \<longrightarrow>
      process_logical_line st n line = Inr st)"
  by (auto simp: process_logical_line_def directive_keyword_of)

theorem directive_classification_witness:
  "keyword_of ''# '' = None \<and>
   process_logical_line \<lparr>conditionals = [], stateStack = []\<rparr> 7 ''# '' =
     Inr \<lparr>conditionals = [], stateStack = []\<rparr> \<and>
   keyword_of ''  # pragma once'' = Some ''pragma'' \<and>
   process_logical_line \<lparr>conditionals = [], stateStack = []\<rparr> 7 ''  # pragma once'' =
     Inr \<lparr>conditionals = [], stateStack = []\<rparr> \<and>
   keyword_of ''#IF A'' = Some ''IF'' \<and>
   process_logical_line \<lparr>conditionals = [], stateStack = []\<rparr> 7 ''#IF A'' =
     Inr \<lparr>conditionals = [], stateStack = []\<rparr> \<and>
   keyword_of ''#else'' = Some ''else'' \<and>
   process_logical_line \<lparr>conditionals = [], stateStack = []\<rparr> 7 ''#else'' =
     on_else \<lparr>conditionals = [], stateStack = []\<rparr> 7 ''#else''"
proof -
  let ?st = "\<lparr>conditionals = [], stateStack = []\<rparr>"
  have k1: "keyword_of ''# '' = None"
    and k2: "keyword_of ''  # pragma once'' = Some ''pragma''"
    and k3: "keyword_of ''#IF A'' = Some ''IF''"
    and k4: "keyword_of ''#else'' = Some ''else''"
    by code_simp+
  note t1 = directive_classification [of "''# ''" ?st 7]
  note t2 = directive_classification [of "''  # pragma once''" ?st 7 "''pragma''"]
  note t3 = directive_classification [of "''#IF A''" ?st 7 "''IF''"]
  note t4 = directive_classification [of "''#else''" ?st 7 "''else''"]
  have p1: "process_logical_line ?st 7 ''# '' = Inr ?st"
    by (rule t1 [THEN conjunct2, THEN conjunct1, THEN mp]) (rule k1)
  have p2: "process_logical_line ?st 7 ''  # pragma once'' = Inr ?st"
    by (rule t2 [THEN conjunct2, THEN conjunct2, THEN conjunct2, THEN conjunct2, THEN conjunct2, THEN mp])
       (simp add: k2)
  have p3: "process_logical_line ?st 7 ''#IF A'' = Inr ?st"
    by (rule t3 [THEN conjunct2, THEN conjunct2, THEN conjunct2, THEN conjunct2, THEN conjunct2, THEN mp])
       (simp add: k3)
  have p4: "process_logical_line ?st 7 ''#else'' = on_else ?st 7 ''#else''"
    by (rule t4 [THEN conjunct2, THEN conjunct2, THEN conjunct2, THEN conjunct1, THEN mp])
       (simp add: k4)
  show ?thesis
    by (intro conjI k1 p1 k2 p2 k3 p3 k4 p4)
qed

section \<open>Line continuation\<close>

text \<open>
  C7. The loop of the builder applies its body to the logical lines of the file, each with
  its number, in order. The physical lines joined by newlines are the file. The first
  logical line has number 1; the number of each following logical line is the number of
  the one before plus the number of physical lines merged into that one (one more than
  the newlines in its text), not plus one; and the text of the logical line numbered
  \<open>k\<close> is the physical lines from the \<open>k\<close>-th on, as many as were merged, joined by
  newlines. So the number passed to the loop body is the number of the physical line where
  the logical line begins. The body classifies the merged text. When it opens a
  conditional, the conditional on top of the stack afterwards begins at that number and
  its only block begins at that number and has the whole merged text as its condition;
  when it starts a new block for \<^verbatim>\<open>else\<close> or \<^verbatim>\<open>elif\<close>, the last block of the
  conditional on top of the stack begins at that number and has the merged text as its
  condition.
\<close>

theorem logical_line_numbering:
  "build_loop \<lparr>unread = content, good = True\<rparr> 1 st =
     run_lines (logical_lines 1 (physical_lines content)) st \<and>
   join_lines (physical_lines content) = content \<and>
   logical_lines 1 (physical_lines content) \<noteq> [] \<and>
   fst (hd (logical_lines 1 (physical_lines content))) = 1 \<and>
   (\<forall>i. Suc i < length (logical_lines 1 (physical_lines content)) \<longrightarrow>
      fst (logical_lines 1 (physical_lines content) ! Suc i) =
        fst (logical_lines 1 (physical_lines content) ! i) + 1 +
          int (count_list (snd (logical_lines 1 (physical_lines content) ! i)) (CHR 0x0A))) \<and>
   (\<forall>x \<in> set (logical_lines 1 (physical_lines content)).
      snd x = join_lines (take (Suc (count_list (snd x) (CHR 0x0A)))
                            (drop (nat (fst x - 1)) (physical_lines content)))) \<and>
   (logical_lines 1 (physical_lines content) = pre @ (n, cur) # post \<and>
    run_lines pre \<lparr>conditionals = [], stateStack = []\<rparr> = Inr st0 \<and>
    directive cur = Some d \<and> (d = ''if'' \<or> d = ''ifdef'' \<or> d = ''ifndef'') \<longrightarrow>
      (\<exists>st'. process_logical_line st0 n cur = Inr st' \<and>
             deref (conditionals st') (last (stateStack st')) =
               Some (Conditional n 0 [Conditional_Block n 0 cur []]))) \<and>
   (logical_lines 1 (physical_lines content) = pre @ (n, cur) # post \<and>
    run_lines pre \<lparr>conditionals = [], stateStack = []\<rparr> = Inr st0 \<and> stateStack st0 \<noteq> [] \<and>
    directive cur = Some d \<and> (d = ''else'' \<or> d = ''elif'') \<longrightarrow>
      (\<exists>st' cond. process_logical_line st0 n cur = Inr st' \<and>
             deref (conditionals st') (last (stateStack st')) = Some cond \<and>
             last (blocks cond) = Conditional_Block n 0 cur []))"
proof -
  let ?ls = "physical_lines content"
  have free: "\<forall>x \<in> set ?ls. CHR 0x0A \<notin> set x"
    by (simp add: physical_lines_no_newline)
  have loop: "build_loop \<lparr>unread = content, good = True\<rparr> 1 st = run_lines (logical_lines 1 ?ls) st"
    using build_loop_run_lines [OF free, of 1 st] by (simp add: stream_of_physical_lines)
  note numbering = logical_lines_numbering [OF free, of 1]
  have first: "logical_lines 1 ?ls \<noteq> [] \<and> fst (hd (logical_lines 1 ?ls)) = 1"
    using numbering by simp
  have on_open: "\<exists>st'. process_logical_line st0 n cur = Inr st' \<and>
      deref (conditionals st') (last (stateStack st')) =
        Some (Conditional n 0 [Conditional_Block n 0 cur []])"
    if "logical_lines 1 ?ls = pre @ (n, cur) # post"
      and "run_lines pre \<lparr>conditionals = [], stateStack = []\<rparr> = Inr st0"
      and "directive cur = Some d" and "d = ''if'' \<or> d = ''ifdef'' \<or> d = ''ifndef''"
  proof -
    from that(3,4) have "process_logical_line st0 n cur = on_if st0 n cur"
      by (auto simp: process_logical_line_def)
    with on_if_records [OF run_prefix_inv [OF that(1,2)], of cur] show ?thesis
      by (simp add: opened_at_def)
  qed
  have on_branch: "\<exists>st' cond. process_logical_line st0 n cur = Inr st' \<and>
      deref (conditionals st') (last (stateStack st')) = Some cond \<and>
      last (blocks cond) = Conditional_Block n 0 cur []"
    if "logical_lines 1 ?ls = pre @ (n, cur) # post"
      and "run_lines pre \<lparr>conditionals = [], stateStack = []\<rparr> = Inr st0"
      and "stateStack st0 \<noteq> []"
      and "directive cur = Some d" and "d = ''else'' \<or> d = ''elif''"
  proof -
    from that(4,5) have "process_logical_line st0 n cur = on_else st0 n cur"
      by (auto simp: process_logical_line_def)
    with on_else_records [OF run_prefix_inv [OF that(1,2)] that(3), of cur] show ?thesis
      by simp
  qed
  from loop first numbering on_open on_branch show ?thesis
    by (simp add: join_physical_lines)
qed

theorem logical_line_numbering_witness:
  "logical_lines 1 (physical_lines example_4) =
     [(1, ''#if A '' @ [CHR 0x5C, CHR 0x0A] @ '' B''), (3, ''x;'')] @ (4, ''#else'')
       # [(5, ''y;''), (6, ''#endif''), (7, [])] \<and>
   (\<exists>st'. process_logical_line \<lparr>conditionals = [], stateStack = []\<rparr> 1
            (''#if A '' @ [CHR 0x5C, CHR 0x0A] @ '' B'') = Inr st' \<and>
          deref (conditionals st') (last (stateStack st')) =
            Some (Conditional 1 0
                    [Conditional_Block 1 0 (''#if A '' @ [CHR 0x5C, CHR 0x0A] @ '' B'') []])) \<and>
   (\<exists>st' cond.
      process_logical_line
        \<lparr>conditionals = [Conditional 1 0
           [Conditional_Block 1 0 (''#if A '' @ [CHR 0x5C, CHR 0x0A] @ '' B'') []]],
         stateStack = [(0, [])]\<rparr> 4 ''#else'' = Inr st' \<and>
      deref (conditionals st') (last (stateStack st')) = Some cond \<and>
      last (blocks cond) = Conditional_Block 4 0 ''#else'' []) \<and>
   build example_4 =
     Inr [Conditional 1 6
            [Conditional_Block 1 4 (''#if A '' @ [CHR 0x5C, CHR 0x0A] @ '' B'') [],
             Conditional_Block 4 6 ''#else'' []]]"
proof -
  let ?init = "\<lparr>conditionals = [], stateStack = []\<rparr>"
  let ?cur = "''#if A '' @ [CHR 0x5C, CHR 0x0A] @ '' B''"
  let ?st0 = "\<lparr>conditionals = [Conditional 1 0 [Conditional_Block 1 0 ?cur []]],
               stateStack = [(0, [])]\<rparr>"
  have l: "logical_lines 1 (physical_lines example_4) =
      [(1, ?cur), (3, ''x;'')] @ (4, ''#else'') # [(5, ''y;''), (6, ''#endif''), (7, [])]"
    by code_simp
  then have l': "logical_lines 1 (physical_lines example_4) =
      [] @ (1, ?cur) # [(3, ''x;''), (4, ''#else''), (5, ''y;''), (6, ''#endif''), (7, [])]"
    by simp
  have r: "run_lines [(1, ?cur), (3, ''x;'')] ?init = Inr ?st0"
    by code_simp
  have r': "run_lines [] ?init = Inr ?init"
    by simp
  have s: "stateStack ?st0 \<noteq> []"
    by simp
  have d: "directive ''#else'' = Some ''else''" and d': "directive ?cur = Some ''if''"
    by code_simp+
  have b: "build example_4 =
     Inr [Conditional 1 6 [Conditional_Block 1 4 ?cur [], Conditional_Block 4 6 ''#else'' []]]"
    by code_simp
  note t1 = logical_line_numbering [where content = example_4 and pre = "[]" and n = 1
      and cur = ?cur and st0 = ?init and d = "''if''"
      and post = "[(3, ''x;''), (4, ''#else''), (5, ''y;''), (6, ''#endif''), (7, [])]"]
  note t2 = logical_line_numbering [where content = example_4 and pre = "[(1, ?cur), (3, ''x;'')]"
      and n = 4 and cur = "''#else''" and st0 = ?st0 and d = "''else''"
      and post = "[(5, ''y;''), (6, ''#endif''), (7, [])]"]
  have o: "\<exists>st'. process_logical_line ?init 1 ?cur = Inr st' \<and>
      deref (conditionals st') (last (stateStack st')) =
        Some (Conditional 1 0 [Conditional_Block 1 0 ?cur []])"
    by (rule t1 [THEN conjunct2, THEN conjunct2, THEN conjunct2, THEN conjunct2, THEN conjunct2,
          THEN conjunct2, THEN conjunct1, THEN mp]) (intro conjI l' r' d' disjI1 refl)
  have e: "\<exists>st' cond. process_logical_line ?st0 4 ''#else'' = Inr st' \<and>
      deref (conditionals st') (last (stateStack st')) = Some cond \<and>
      last (blocks cond) = Conditional_Block 4 0 ''#else'' []"
    by (rule t2 [THEN conjunct2, THEN conjunct2, THEN conjunct2, THEN conjunct2, THEN conjunct2,
          THEN conjunct2, THEN conjunct2, THEN mp]) (intro conjI l r s d disjI1 refl)
  show ?thesis
    by (intro conjI l o e b)
qed

end
